theory Spec2Isabelle
  imports Main "HOL-Library.Extended_Nat"
begin

section \<open>The grid model of astar.py\<close>

text \<open>
  The pathfinding core of the visualiser: the \<open>Node\<close> dataclass, \<open>update_neighbors\<close>,
  \<open>heuristic\<close>, \<open>reconstruct_path\<close> and \<open>algorithm\<close>. Rendering (\<open>draw\<close>, the
  \<open>x\<close>/\<open>y\<close> pixel attributes, the pygame event pump) changes no state the search reads
  and is left out.

  A Python reference to a \<open>Node\<close> object is modelled by the place of that object in the
  grid, a pair \<open>(i, j)\<close> standing for \<open>grid[i][j]\<close>. Colours are the RGB triples of the
  \<open>Color\<close> enumeration.
\<close>

type_synonym rgb = "int \<times> int \<times> int"
type_synonym pos = "int \<times> int"

definition Color_OPEN :: rgb where "Color_OPEN = (0, 255, 200)"
definition Color_CLOSED :: rgb where "Color_CLOSED = (255, 0, 150)"
definition Color_BARRIER :: rgb where "Color_BARRIER = (20, 20, 40)"
definition Color_START :: rgb where "Color_START = (200, 0, 255)"
definition Color_END :: rgb where "Color_END = (255, 140, 0)"
definition Color_PATH :: rgb where "Color_PATH = (255, 200, 0)"
definition Color_WHITE :: rgb where "Color_WHITE = (255, 255, 255)"

lemmas Color_defs = Color_OPEN_def Color_CLOSED_def Color_BARRIER_def Color_START_def
  Color_END_def Color_PATH_def Color_WHITE_def

record node =
  row :: int
  col :: int
  width :: int
  total_rows :: int
  color :: rgb
  neighbors :: "pos list"

datatype py_error = IndexError | KeyError | ZeroDivisionError | RecursionError

text \<open>\<open>Node(row, col, width, total_rows)\<close>: \<open>__post_init__\<close> fills in the colour
  \<open>WHITE\<close> and a fresh empty neighbour list.\<close>

definition Node :: "int \<Rightarrow> int \<Rightarrow> int \<Rightarrow> int \<Rightarrow> node" where
  "Node r c w t =
     \<lparr>row = r, col = c, width = w, total_rows = t, color = Color_WHITE, neighbors = []\<rparr>"

definition get_pos :: "node \<Rightarrow> int \<times> int" where
  "get_pos n = (row n, col n)"

definition is_closed :: "node \<Rightarrow> bool" where "is_closed n = (color n = Color_CLOSED)"
definition is_open :: "node \<Rightarrow> bool" where "is_open n = (color n = Color_OPEN)"
definition is_barrier :: "node \<Rightarrow> bool" where "is_barrier n = (color n = Color_BARRIER)"
definition is_start :: "node \<Rightarrow> bool" where "is_start n = (color n = Color_START)"
definition is_end :: "node \<Rightarrow> bool" where "is_end n = (color n = Color_END)"

definition reset :: "node \<Rightarrow> node" where "reset n = n\<lparr>color := Color_WHITE\<rparr>"
definition make_closed :: "node \<Rightarrow> node" where "make_closed n = n\<lparr>color := Color_CLOSED\<rparr>"
definition make_open :: "node \<Rightarrow> node" where "make_open n = n\<lparr>color := Color_OPEN\<rparr>"
definition make_barrier :: "node \<Rightarrow> node" where "make_barrier n = n\<lparr>color := Color_BARRIER\<rparr>"
definition make_start :: "node \<Rightarrow> node" where "make_start n = n\<lparr>color := Color_START\<rparr>"
definition make_end :: "node \<Rightarrow> node" where "make_end n = n\<lparr>color := Color_END\<rparr>"
definition make_path :: "node \<Rightarrow> node" where "make_path n = n\<lparr>color := Color_PATH\<rparr>"

subsection \<open>The grid\<close>

type_synonym grid = "node list list"

text \<open>\<open>make_grid(rows, width)\<close>; \<open>width // rows\<close> raises for \<open>rows = 0\<close>, and
  \<open>range(rows)\<close> is empty for negative \<open>rows\<close>.\<close>

definition make_grid :: "int \<Rightarrow> int \<Rightarrow> py_error + grid" where
  "make_grid rows w =
     (if rows = 0 then Inl ZeroDivisionError
      else let gap = w div rows
           in Inr (map (\<lambda>i. map (\<lambda>j. Node i j gap rows) [0..rows - 1]) [0..rows - 1]))"

text \<open>Python indexing \<open>xs[i]\<close>: a negative index counts from the end, anything outside
  raises. The result carries the place that was read.\<close>

definition py_index :: "'a list \<Rightarrow> int \<Rightarrow> py_error + (int \<times> 'a)" where
  "py_index xs i =
     (let n = int (length xs); j = (if i < 0 then n + i else i)
      in if 0 \<le> j \<and> j < n then Inr (j, xs ! nat j) else Inl IndexError)"

text \<open>\<open>grid[i][j]\<close>: the reference to the object and the object.\<close>

definition grid_get :: "grid \<Rightarrow> int \<Rightarrow> int \<Rightarrow> py_error + (pos \<times> node)" where
  "grid_get g i j =
     (case py_index g i of
        Inl e \<Rightarrow> Inl e
      | Inr (a, r) \<Rightarrow>
          (case py_index r j of
             Inl e \<Rightarrow> Inl e
           | Inr (b, n) \<Rightarrow> Inr ((a, b), n)))"

text \<open>Dereferencing a reference, and writing a colour through one.\<close>

definition cell :: "grid \<Rightarrow> pos \<Rightarrow> node" where
  "cell g p = g ! nat (fst p) ! nat (snd p)"

definition set_cell :: "grid \<Rightarrow> pos \<Rightarrow> node \<Rightarrow> grid" where
  "set_cell g p n = g[nat (fst p) := (g ! nat (fst p))[nat (snd p) := n]]"

definition all_nodes :: "grid \<Rightarrow> pos list" where
  "all_nodes g =
     concat (map (\<lambda>i. map (\<lambda>j. (int i, int j)) [0..<length (g ! i)]) [0..<length g])"

text \<open>
  One direction of \<open>update_neighbors\<close>: \<open>if guard and not grid[i][j].is_barrier():
  self.neighbors.append(grid[i][j])\<close>. The grid is only read when the guard holds.
\<close>

definition probe :: "bool \<Rightarrow> grid \<Rightarrow> int \<Rightarrow> int \<Rightarrow> py_error + pos list" where
  "probe guard g i j =
     (if guard then
        (case grid_get g i j of
           Inl e \<Rightarrow> Inl e
         | Inr (p, n) \<Rightarrow> Inr (if is_barrier n then [] else [p]))
      else Inr [])"

definition update_neighbors :: "node \<Rightarrow> grid \<Rightarrow> py_error + node" where
  "update_neighbors self g =
     (case probe (row self < total_rows self - 1) g (row self + 1) (col self) of
        Inl e \<Rightarrow> Inl e
      | Inr down \<Rightarrow>
     (case probe (row self > 0) g (row self - 1) (col self) of
        Inl e \<Rightarrow> Inl e
      | Inr up \<Rightarrow>
     (case probe (col self < total_rows self - 1) g (row self) (col self + 1) of
        Inl e \<Rightarrow> Inl e
      | Inr right \<Rightarrow>
     (case probe (col self > 0) g (row self) (col self - 1) of
        Inl e \<Rightarrow> Inl e
      | Inr left \<Rightarrow> Inr (self\<lparr>neighbors := down @ up @ right @ left\<rparr>)))))"

text \<open>A loop whose body may raise: the first error ends it.\<close>

fun for_each :: "('a \<Rightarrow> 's \<Rightarrow> py_error + 's) \<Rightarrow> 'a list \<Rightarrow> 's \<Rightarrow> py_error + 's" where
  "for_each f [] s = Inr s"
| "for_each f (x # xs) s =
     (case f x s of Inl e \<Rightarrow> Inl e | Inr s' \<Rightarrow> for_each f xs s')"

text \<open>The refresh that \<open>main\<close> runs before a search:
  \<open>for row in grid: for node in row: node.update_neighbors(grid)\<close>, each node updated in
  place.\<close>

definition refresh_node :: "pos \<Rightarrow> grid \<Rightarrow> py_error + grid" where
  "refresh_node p g =
     (case update_neighbors (cell g p) g of
        Inl e \<Rightarrow> Inl e
      | Inr n \<Rightarrow> Inr (set_cell g p n))"

definition refresh_all :: "grid \<Rightarrow> py_error + grid" where
  "refresh_all g = for_each refresh_node (all_nodes g) g"

subsection \<open>Equality and hashing of nodes\<close>





section \<open>The search\<close>

text \<open>\<open>heuristic(p1, p2)\<close>, the Manhattan distance.\<close>

definition heuristic :: "int \<times> int \<Rightarrow> int \<times> int \<Rightarrow> int" where
  "heuristic p1 p2 = (case p1 of (x1, y1) \<Rightarrow> case p2 of (x2, y2) \<Rightarrow> \<bar>x1 - x2\<bar> + \<bar>y1 - y2\<bar>)"

text \<open>
  \<open>reconstruct_path(came_from, current, draw)\<close>: the walk back along \<open>came_from\<close>.
  Nothing in the function bounds the walk, so the loop is a partial function and
  \<open>None\<close> stands for a walk that never ends.
\<close>

partial_function (option) reconstruct_loop ::
  "(pos \<rightharpoonup> pos) \<Rightarrow> pos \<Rightarrow> int \<Rightarrow> grid \<Rightarrow> (int \<times> grid) option" where
  "reconstruct_loop came_from current path_length g =
     (case came_from current of
        None \<Rightarrow> Some (path_length, g)
      | Some p \<Rightarrow> reconstruct_loop came_from p (path_length + 1) (set_cell g p (make_path (cell g p))))"

declare reconstruct_loop.simps [code]

definition reconstruct_path :: "(pos \<rightharpoonup> pos) \<Rightarrow> pos \<Rightarrow> grid \<Rightarrow> (int \<times> grid) option" where
  "reconstruct_path came_from current g = reconstruct_loop came_from current 1 g"

text \<open>
  The \<open>PriorityQueue\<close> of tuples \<open>(f, count, node)\<close>. \<open>get\<close> removes the least tuple;
  tuples compare by \<open>f\<close>, then by \<open>count\<close>. The counts of the entries of one search are
  all different, so the third component (whose \<open>__lt__\<close> is constantly false) never
  decides.
\<close>

type_synonym entry = "enat \<times> int \<times> pos"

definition entry_less :: "entry \<Rightarrow> entry \<Rightarrow> bool" where
  "entry_less a b = (fst a < fst b \<or> (fst a = fst b \<and> fst (snd a) < fst (snd b)))"

fun least_entry :: "entry \<Rightarrow> entry list \<Rightarrow> entry" where
  "least_entry e [] = e"
| "least_entry e (x # xs) = least_entry (if entry_less x e then x else e) xs"

definition pq_put :: "entry \<Rightarrow> entry list \<Rightarrow> entry list" where
  "pq_put e q = q @ [e]"

fun pq_get :: "entry list \<Rightarrow> entry \<times> entry list" where
  "pq_get q = (let e = least_entry (hd q) (tl q) in (e, remove1 e q))"

text \<open>The local state of \<open>algorithm\<close>, with the grid whose colours it changes.
  \<open>float("inf")\<close> is \<open>\<infinity>\<close>.\<close>

record search_state =
  cells :: grid
  count :: int
  open_set :: "entry list"
  came_from :: "pos \<rightharpoonup> pos"
  g_score :: "pos \<rightharpoonup> enat"
  f_score :: "pos \<rightharpoonup> enat"
  open_set_hash :: "pos set"

definition init_state :: "grid \<Rightarrow> pos \<Rightarrow> pos \<Rightarrow> search_state" where
  "init_state g start end =
     \<lparr>cells = g,
      count = 0,
      open_set = pq_put (0, 0, start) [],
      came_from = Map.empty,
      g_score = (map_of (map (\<lambda>n. (n, \<infinity>)) (all_nodes g)))(start \<mapsto> 0),
      f_score = (map_of (map (\<lambda>n. (n, \<infinity>)) (all_nodes g)))
                  (start \<mapsto> enat (nat (heuristic (get_pos (cell g start)) (get_pos (cell g end))))),
      open_set_hash = {start}\<rparr>"

text \<open>The body of \<open>for neighbor in current.neighbors\<close>. A key missing from
  \<open>g_score\<close> raises.\<close>

definition relax :: "pos \<Rightarrow> pos \<Rightarrow> pos \<Rightarrow> search_state \<Rightarrow> py_error + search_state" where
  "relax end current neighbor s =
     (case g_score s current of
        None \<Rightarrow> Inl KeyError
      | Some gc \<Rightarrow>
          let temp_g_score = gc + 1 in
          (case g_score s neighbor of
             None \<Rightarrow> Inl KeyError
           | Some gn \<Rightarrow>
               if temp_g_score < gn then
                 let f = temp_g_score +
                           enat (nat (heuristic (get_pos (cell (cells s) neighbor))
                                                (get_pos (cell (cells s) end))));
                     s1 = s\<lparr>came_from := (came_from s)(neighbor \<mapsto> current),
                            g_score := (g_score s)(neighbor \<mapsto> temp_g_score),
                            f_score := (f_score s)(neighbor \<mapsto> f)\<rparr>
                 in if neighbor \<notin> open_set_hash s1 then
                      Inr (s1\<lparr>count := count s1 + 1,
                              open_set := pq_put (f, count s1 + 1, neighbor) (open_set s1),
                              open_set_hash := insert neighbor (open_set_hash s1),
                              cells := set_cell (cells s1) neighbor
                                         (make_open (cell (cells s1) neighbor))\<rparr>)
                    else Inr s1
               else Inr s))"

text \<open>One pass of the \<open>while\<close> body after the test for \<open>end\<close>: the relaxations, then
  \<open>if current != start: current.make_closed()\<close>.\<close>

definition expand :: "pos \<Rightarrow> pos \<Rightarrow> pos \<Rightarrow> search_state \<Rightarrow> py_error + search_state" where
  "expand start end current s =
     (case for_each (relax end current) (neighbors (cell (cells s) current)) s of
        Inl e \<Rightarrow> Inl e
      | Inr s' \<Rightarrow>
          Inr (if current \<noteq> start
               then s'\<lparr>cells := set_cell (cells s') current (make_closed (cell (cells s') current))\<rparr>
               else s'))"

text \<open>
  The \<open>while not open_set.empty()\<close> loop. It stops with \<open>True\<close> in the state in which
  \<open>current == end\<close> was seen, or with \<open>False\<close> when the queue is empty; \<open>None\<close> is a
  loop that runs forever. \<open>open_set_hash.remove(current)\<close> raises when \<open>current\<close> is
  not in the set.
\<close>

partial_function (option) search_loop ::
  "pos \<Rightarrow> pos \<Rightarrow> search_state \<Rightarrow> (py_error + bool \<times> search_state) option" where
  "search_loop start end s =
     (if open_set s = [] then Some (Inr (False, s))
      else
        let (e, q) = pq_get (open_set s);
            current = snd (snd e)
        in if current \<notin> open_set_hash s then Some (Inl KeyError)
           else
             let s1 = s\<lparr>open_set := q, open_set_hash := open_set_hash s - {current}\<rparr>
             in if current = end then Some (Inr (True, s1))
                else (case expand start end current s1 of
                        Inl err \<Rightarrow> Some (Inl err)
                      | Inr s2 \<Rightarrow> search_loop start end s2))"

declare search_loop.simps [code]

text \<open>
  \<open>algorithm(draw, grid, start, end)\<close>. The result is the returned pair together with
  the grid as the call leaves it. \<open>path_length\<close> is \<open>0\<close> until a path is reconstructed.
\<close>

definition algorithm :: "grid \<Rightarrow> pos \<Rightarrow> pos \<Rightarrow> (py_error + bool \<times> int \<times> grid) option" where
  "algorithm g start end =
     (case search_loop start end (init_state g start end) of
        None \<Rightarrow> None
      | Some (Inl err) \<Rightarrow> Some (Inl err)
      | Some (Inr (False, s)) \<Rightarrow> Some (Inr (False, 0, cells s))
      | Some (Inr (True, s)) \<Rightarrow>
          (case reconstruct_path (came_from s) end (cells s) of
             None \<Rightarrow> None
           | Some (path_length, g1) \<Rightarrow>
               let g2 = set_cell g1 end (make_end (cell g1 end));
                   g3 = set_cell g2 start (make_start (cell g2 start))
               in Some (Inr (True, path_length, g3))))"

section \<open>Well-formed grids and routes\<close>

text \<open>
  The grids the program builds: \<open>make_grid\<close> gives a square matrix in which the node at
  \<open>grid[i][j]\<close> has \<open>row = i\<close>, \<open>col = j\<close> and \<open>total_rows\<close> the side length, and
  afterwards only colours and neighbour lists change. \<open>open_neighbors\<close> is the list the
  specification asks of a refresh: the cells inside the grid next to \<open>p\<close>, down, up,
  right, left, that are not barriers.
\<close>

definition in_grid :: "grid \<Rightarrow> pos \<Rightarrow> bool" where
  "in_grid g p = (0 \<le> fst p \<and> fst p < int (length g) \<and> 0 \<le> snd p \<and> snd p < int (length g))"

definition grid_ok :: "grid \<Rightarrow> bool" where
  "grid_ok g =
     (\<forall>i < length g. length (g ! i) = length g \<and>
        (\<forall>j < length g. row (g ! i ! j) = int i \<and> col (g ! i ! j) = int j \<and>
                          total_rows (g ! i ! j) = int (length g)))"

definition open_neighbors :: "grid \<Rightarrow> pos \<Rightarrow> pos list" where
  "open_neighbors g p =
     filter (\<lambda>q. in_grid g q \<and> \<not> is_barrier (cell g q))
       [(fst p + 1, snd p), (fst p - 1, snd p), (fst p, snd p + 1), (fst p, snd p - 1)]"

definition refreshed :: "grid \<Rightarrow> bool" where
  "refreshed g = (grid_ok g \<and> (\<forall>p \<in> set (all_nodes g). neighbors (cell g p) = open_neighbors g p))"

text \<open>A 2 by 2 grid with a barrier in the corner \<open>(0, 0)\<close>.\<close>

definition corner_barrier :: grid where
  "corner_barrier = set_cell (projr (make_grid 2 800)) (0, 0) (make_barrier (cell (projr (make_grid 2 800)) (0, 0)))"

section \<open>Routes and the invariant of the search\<close>

text \<open>
  A step of a route goes from a cell to a cell next to it that lies in the grid and is not
  a barrier; these are the steps a refreshed neighbour list offers. A route is a non-empty
  list of cells of the grid in which each cell is one step from the one before.
\<close>

definition step_ok :: "grid \<Rightarrow> pos \<Rightarrow> pos \<Rightarrow> bool" where
  "step_ok g p q =
     (in_grid g q \<and> \<not> is_barrier (cell g q) \<and> \<bar>fst p - fst q\<bar> + \<bar>snd p - snd q\<bar> = 1)"

fun route :: "grid \<Rightarrow> pos list \<Rightarrow> bool" where
  "route g [] = False"
| "route g [p] = in_grid g p"
| "route g (p # q # ps) = (in_grid g p \<and> step_ok g p q \<and> route g (q # ps))"

text \<open>The cells \<open>reconstruct_path\<close> walks through, from a cell back to the first cell
  without a predecessor.\<close>

fun is_chain :: "(pos \<rightharpoonup> pos) \<Rightarrow> pos list \<Rightarrow> bool" where
  "is_chain cf [] = False"
| "is_chain cf [p] = (cf p = None)"
| "is_chain cf (p # q # ps) = (cf p = Some q \<and> is_chain cf (q # ps))"

text \<open>
  The facts that hold of the state of \<open>algorithm\<close> each time the loop test is reached,
  for a search on the refreshed grid \<open>g0\<close>. Inside the \<open>for\<close> loop the cell being expanded
  has neighbours not yet relaxed; \<open>todo\<close> holds those pairs.
\<close>

definition node_of :: "entry \<Rightarrow> pos" where
  "node_of e = snd (snd e)"

definition inv_grid :: "grid \<Rightarrow> search_state \<Rightarrow> bool" where
  "inv_grid g0 s =
     (grid_ok (cells s) \<and> length (cells s) = length g0 \<and>
      (\<forall>p. in_grid g0 p \<longrightarrow>
         cell (cells s) p = (cell g0 p)\<lparr>color := color (cell (cells s) p)\<rparr> \<and>
         (is_barrier (cell g0 p) \<longrightarrow> color (cell (cells s) p) = color (cell g0 p)) \<and>
         (\<not> is_barrier (cell g0 p) \<longrightarrow> \<not> is_barrier (cell (cells s) p))))"

definition inv_queue :: "grid \<Rightarrow> search_state \<Rightarrow> bool" where
  "inv_queue g0 s =
     (dom (g_score s) = {p. in_grid g0 p} \<and>
      open_set_hash s = node_of ` set (open_set s) \<and>
      distinct (map node_of (open_set s)) \<and>
      (\<forall>p \<in> open_set_hash s. \<exists>d. g_score s p = Some (enat d)))"

definition inv_tree :: "grid \<Rightarrow> pos \<Rightarrow> search_state \<Rightarrow> bool" where
  "inv_tree g0 start s =
     (in_grid g0 start \<and> g_score s start = Some 0 \<and> came_from s start = None \<and>
      (\<forall>p q. came_from s p = Some q \<longrightarrow>
         in_grid g0 q \<and> step_ok g0 q p \<and>
         (\<exists>d dq. g_score s p = Some (enat d) \<and> g_score s q = Some (enat dq) \<and> dq < d)) \<and>
      (\<forall>p d. g_score s p = Some (enat d) \<longrightarrow> p = start \<or> came_from s p \<noteq> None))"

definition inv_closed :: "grid \<Rightarrow> (pos \<times> pos) set \<Rightarrow> search_state \<Rightarrow> bool" where
  "inv_closed g0 todo s =
     (\<forall>p q d. g_score s p = Some (enat d) \<longrightarrow> p \<notin> open_set_hash s \<longrightarrow> step_ok g0 p q \<longrightarrow>
        (p, q) \<notin> todo \<longrightarrow> (\<exists>dq. g_score s q = Some (enat dq) \<and> dq \<le> d + 1))"

definition reached :: "search_state \<Rightarrow> pos set" where
  "reached s = {p. \<exists>d. g_score s p = Some (enat d)}"

definition inv_bound :: "search_state \<Rightarrow> bool" where
  "inv_bound s = (\<forall>p d. g_score s p = Some (enat d) \<longrightarrow> d < card (reached s))"

definition search_inv :: "grid \<Rightarrow> pos \<Rightarrow> (pos \<times> pos) set \<Rightarrow> search_state \<Rightarrow> bool" where
  "search_inv g0 start todo s =
     (refreshed g0 \<and> inv_grid g0 s \<and> inv_queue g0 s \<and> inv_tree g0 start s \<and>
      inv_closed g0 todo s \<and> inv_bound s)"

definition end_waiting :: "pos \<Rightarrow> search_state \<Rightarrow> bool" where
  "end_waiting end s = ((\<exists>d. g_score s end = Some (enat d)) \<longrightarrow> end \<in> open_set_hash s)"

text \<open>The quantity that every pass of the loop makes smaller: the length of the queue
  plus twice the sum of the scores, an infinite score counting as the number of cells.\<close>

definition score_nat :: "grid \<Rightarrow> search_state \<Rightarrow> pos \<Rightarrow> nat" where
  "score_nat g0 s p =
     (case g_score s p of Some (enat d) \<Rightarrow> d | _ \<Rightarrow> card {p. in_grid g0 p})"

definition potential :: "grid \<Rightarrow> search_state \<Rightarrow> nat" where
  "potential g0 s = length (open_set s) + 2 * (\<Sum>p \<in> {p. in_grid g0 p}. score_nat g0 s p)"

text \<open>The cell the next pass of the loop takes from the queue, and the state once it
  has been taken out of the queue and of \<open>open_set_hash\<close>.\<close>

definition next_node :: "search_state \<Rightarrow> pos" where
  "next_node s = snd (snd (fst (pq_get (open_set s))))"

definition pop_state :: "search_state \<Rightarrow> search_state" where
  "pop_state s =
     s\<lparr>open_set := snd (pq_get (open_set s)),
       open_set_hash := open_set_hash s - {next_node s}\<rparr>"


text \<open>
  Grids as \<open>main\<close> hands them to the search: built by \<open>make_grid\<close>, with the start
  and end cells marked and barriers painted, then refreshed. \<open>open_5x5\<close> is the empty
  5 by 5 grid with start \<open>(0, 0)\<close> and end \<open>(4, 4)\<close>; \<open>walled_start\<close> is a 3 by 3 grid
  whose start \<open>(0, 0)\<close> is shut in by barriers at \<open>(0, 1)\<close> and \<open>(1, 0)\<close>, with end
  \<open>(2, 2)\<close>; \<open>detour\<close> is a 2 by 2 grid with start \<open>(0, 0)\<close>, end \<open>(0, 1)\<close> next to it,
  and a barrier at \<open>(1, 1)\<close>.
\<close>

definition paint :: "(node \<Rightarrow> node) \<Rightarrow> pos \<Rightarrow> grid \<Rightarrow> grid" where
  "paint f p g = set_cell g p (f (cell g p))"

definition open_5x5 :: grid where
  "open_5x5 =
     projr (refresh_all (paint make_end (4, 4) (paint make_start (0, 0) (projr (make_grid 5 800)))))"

definition walled_start :: grid where
  "walled_start =
     projr (refresh_all
       (paint make_barrier (1, 0) (paint make_barrier (0, 1)
         (paint make_end (2, 2) (paint make_start (0, 0) (projr (make_grid 3 800)))))))"

definition detour :: grid where
  "detour =
     projr (refresh_all
       (paint make_barrier (1, 1)
         (paint make_end (0, 1) (paint make_start (0, 0) (projr (make_grid 2 800))))))"

text \<open>The state in which the loop of the search on \<open>detour\<close> ends, and the grid as
  \<open>reconstruct_path\<close> leaves it.\<close>

definition detour_exit :: search_state where
  "detour_exit = snd (projr (the (search_loop (0, 0) (0, 1) (init_state detour (0, 0) (0, 1)))))"

definition detour_marked :: grid where
  "detour_marked = snd (the (reconstruct_path (came_from detour_exit) (0, 1) (cells detour_exit)))"

(*DEFS-END*)

section \<open>Properties of the grid model\<close>

lemma grid_ok_cell:
  assumes "grid_ok g" "in_grid g p"
  shows "row (cell g p) = fst p" "col (cell g p) = snd p" "total_rows (cell g p) = int (length g)"
    "length (g ! nat (fst p)) = length g"
  using assms by (auto simp: grid_ok_def in_grid_def cell_def)

lemma grid_get_in:
  assumes "grid_ok g" "in_grid g (i, j)"
  shows "grid_get g i j = Inr ((i, j), cell g (i, j))"
  using assms by (auto simp: grid_ok_def in_grid_def cell_def grid_get_def py_index_def Let_def)

lemma probe_in:
  assumes "grid_ok g" "b \<Longrightarrow> in_grid g (i, j)"
  shows "probe b g i j = Inr (if b \<and> \<not> is_barrier (cell g (i, j)) then [(i, j)] else [])"
  using assms by (auto simp: probe_def grid_get_in)

lemma update_neighbors_in:
  assumes ok: "grid_ok g" and p: "in_grid g p"
  shows "update_neighbors (cell g p) g = Inr ((cell g p)\<lparr>neighbors := open_neighbors g p\<rparr>)"
proof -
  obtain r c where pc: "p = (r, c)" by (cases p)
  have rc: "row (cell g p) = r" "col (cell g p) = c" "total_rows (cell g p) = int (length g)"
    using grid_ok_cell[OF ok p] pc by auto
  have range: "0 \<le> r" "r < int (length g)" "0 \<le> c" "c < int (length g)"
    using p pc by (auto simp: in_grid_def)
  have d: "probe (r < int (length g) - 1) g (r + 1) c =
             Inr (if r < int (length g) - 1 \<and> \<not> is_barrier (cell g (r + 1, c)) then [(r + 1, c)] else [])"
    using range by (intro probe_in[OF ok]) (auto simp: in_grid_def)
  have u: "probe (r > 0) g (r - 1) c =
             Inr (if r > 0 \<and> \<not> is_barrier (cell g (r - 1, c)) then [(r - 1, c)] else [])"
    using range by (intro probe_in[OF ok]) (auto simp: in_grid_def)
  have ri: "probe (c < int (length g) - 1) g r (c + 1) =
             Inr (if c < int (length g) - 1 \<and> \<not> is_barrier (cell g (r, c + 1)) then [(r, c + 1)] else [])"
    using range by (intro probe_in[OF ok]) (auto simp: in_grid_def)
  have l: "probe (c > 0) g r (c - 1) =
             Inr (if c > 0 \<and> \<not> is_barrier (cell g (r, c - 1)) then [(r, c - 1)] else [])"
    using range by (intro probe_in[OF ok]) (auto simp: in_grid_def)
  have "open_neighbors g p =
      (if r < int (length g) - 1 \<and> \<not> is_barrier (cell g (r + 1, c)) then [(r + 1, c)] else []) @
      (if r > 0 \<and> \<not> is_barrier (cell g (r - 1, c)) then [(r - 1, c)] else []) @
      (if c < int (length g) - 1 \<and> \<not> is_barrier (cell g (r, c + 1)) then [(r, c + 1)] else []) @
      (if c > 0 \<and> \<not> is_barrier (cell g (r, c - 1)) then [(r, c - 1)] else [])"
    using range unfolding open_neighbors_def pc in_grid_def by auto
  then show ?thesis
    unfolding update_neighbors_def rc d u ri l by simp
qed

text \<open>
  C7. On a well-formed grid \<open>update_neighbors\<close> does not raise, changes nothing of
  the node but its neighbour list, and that list holds exactly the cells inside the grid,
  orthogonally next to the node and not barriers, in the order down, up, right, left.
\<close>

theorem update_neighbors_spec:
  assumes "grid_ok g" "in_grid g p"
  shows "\<exists>n. update_neighbors (cell g p) g = Inr n \<and>
             neighbors n =
               filter (\<lambda>q. in_grid g q \<and> \<not> is_barrier (cell g q))
                 [(fst p + 1, snd p), (fst p - 1, snd p), (fst p, snd p + 1), (fst p, snd p - 1)] \<and>
             n = (cell g p)\<lparr>neighbors := neighbors n\<rparr>"
  using update_neighbors_in[OF assms] by (simp add: open_neighbors_def)

lemma length_set_cell [simp]: "length (set_cell g p n) = length g"
  by (simp add: set_cell_def)

lemma in_grid_set_cell [simp]: "in_grid (set_cell g p n) q = in_grid g q"
  by (simp add: in_grid_def)

lemma cell_set_cell:
  assumes "grid_ok g" "in_grid g p" "in_grid g q"
  shows "cell (set_cell g p n) q = (if q = p then n else cell g q)"
proof -
  have "nat (fst p) < length g" "nat (snd p) < length (g ! nat (fst p))"
    using assms grid_ok_cell(4)[OF assms(1,2)] by (auto simp: in_grid_def)
  moreover have "q = p \<longleftrightarrow> nat (fst q) = nat (fst p) \<and> nat (snd q) = nat (snd p)"
    using assms(2,3) by (auto simp: in_grid_def prod_eq_iff)
  ultimately show ?thesis
    by (auto simp: cell_def set_cell_def nth_list_update)
qed

lemma grid_ok_set_cell:
  assumes ok: "grid_ok g" and p: "in_grid g p"
    and n: "row n = fst p" "col n = snd p" "total_rows n = int (length g)"
  shows "grid_ok (set_cell g p n)"
  unfolding grid_ok_def
proof (intro allI impI conjI)
  fix i assume i: "i < length (set_cell g p n)"
  then have i': "i < length g" by simp
  show "length (set_cell g p n ! i) = length (set_cell g p n)"
    using ok i' p by (auto simp: set_cell_def grid_ok_def in_grid_def nth_list_update)
  fix j assume "j < length (set_cell g p n)"
  then have j': "j < length g" by simp
  have q: "in_grid g (int i, int j)" using i' j' by (simp add: in_grid_def)
  have c: "set_cell g p n ! i ! j = cell (set_cell g p n) (int i, int j)"
    by (simp add: cell_def)
  have c0: "g ! i ! j = cell g (int i, int j)" by (simp add: cell_def)
  show "row (set_cell g p n ! i ! j) = int i"
    unfolding c cell_set_cell[OF ok p q] using n grid_ok_cell[OF ok q] by auto
  show "col (set_cell g p n ! i ! j) = int j"
    unfolding c cell_set_cell[OF ok p q] using n grid_ok_cell[OF ok q] by auto
  show "total_rows (set_cell g p n ! i ! j) = int (length (set_cell g p n))"
    unfolding c cell_set_cell[OF ok p q] using n grid_ok_cell[OF ok q] by auto
qed

lemma set_all_nodes: "grid_ok g \<Longrightarrow> set (all_nodes g) = {p. in_grid g p}"
proof (intro set_eqI iffI)
  fix p assume ok: "grid_ok g" and "p \<in> set (all_nodes g)"
  then show "p \<in> {p. in_grid g p}"
    by (auto simp: all_nodes_def in_grid_def grid_ok_def)
next
  fix p assume ok: "grid_ok g" and "p \<in> {p. in_grid g p}"
  then have p: "in_grid g p" by simp
  define i j where "i = nat (fst p)" and "j = nat (snd p)"
  have i: "i < length g" and j: "j < length (g ! i)"
    using p grid_ok_cell(4)[OF ok p] by (auto simp: in_grid_def i_def j_def)
  have pe: "p = (int i, int j)"
    using p by (auto simp: in_grid_def i_def j_def prod_eq_iff)
  have "(int i, int j) \<in> set (map (\<lambda>j. (int i, int j)) [0..<length (g ! i)])"
    using j by simp
  moreover have "map (\<lambda>j. (int i, int j)) [0..<length (g ! i)]
        \<in> set (map (\<lambda>i. map (\<lambda>j. (int i, int j)) [0..<length (g ! i)]) [0..<length g])"
    using i by simp
  ultimately have "(int i, int j) \<in> set (all_nodes g)"
    unfolding all_nodes_def set_concat by blast
  then show "p \<in> set (all_nodes g)" using pe by simp
qed

lemma open_neighbors_cong:
  assumes "length g' = length g" "\<And>q. in_grid g q \<Longrightarrow> color (cell g' q) = color (cell g q)"
  shows "open_neighbors g' p = open_neighbors g p"
  unfolding open_neighbors_def
  by (rule filter_cong) (auto simp: in_grid_def assms is_barrier_def)

text \<open>The refresh of some nodes: nothing raises, the nodes named get their list.\<close>

lemma for_each_refresh:
  assumes "grid_ok g" "\<forall>p \<in> set ps. in_grid g p"
  shows "\<exists>g'. for_each refresh_node ps g = Inr g' \<and> grid_ok g' \<and> length g' = length g \<and>
           (\<forall>q. in_grid g q \<longrightarrow>
              cell g' q = (if q \<in> set ps then (cell g q)\<lparr>neighbors := open_neighbors g q\<rparr>
                           else cell g q))"
  using assms
proof (induction ps arbitrary: g)
  case Nil
  then show ?case by simp
next
  case (Cons p ps)
  let ?n = "(cell g p)\<lparr>neighbors := open_neighbors g p\<rparr>"
  let ?g1 = "set_cell g p ?n"
  have p: "in_grid g p" using Cons.prems by simp
  have ok: "grid_ok g" by fact
  have step: "refresh_node p g = Inr ?g1"
    by (simp add: refresh_node_def update_neighbors_in[OF ok p])
  have ok1: "grid_ok ?g1"
    using grid_ok_cell[OF ok p] by (intro grid_ok_set_cell[OF ok p]) auto
  have ps1: "\<forall>q \<in> set ps. in_grid ?g1 q" using Cons.prems by simp
  have c1: "\<And>q. in_grid g q \<Longrightarrow> cell ?g1 q = (if q = p then ?n else cell g q)"
    using cell_set_cell[OF ok p] by simp
  have on: "\<And>q. open_neighbors ?g1 q = open_neighbors g q"
    by (rule open_neighbors_cong) (auto simp: c1)
  from Cons.IH[OF ok1 ps1] obtain g' where g':
    "for_each refresh_node ps ?g1 = Inr g'" "grid_ok g'" "length g' = length ?g1"
    "\<forall>q. in_grid ?g1 q \<longrightarrow>
       cell g' q = (if q \<in> set ps then (cell ?g1 q)\<lparr>neighbors := open_neighbors ?g1 q\<rparr>
                    else cell ?g1 q)"
    by blast
  have "\<forall>q. in_grid g q \<longrightarrow>
          cell g' q = (if q \<in> set (p # ps) then (cell g q)\<lparr>neighbors := open_neighbors g q\<rparr>
                       else cell g q)"
    using g'(4) by (auto simp: c1 on)
  then show ?case using g'(1,2,3) step by simp
qed

lemma refresh_all_ok:
  assumes ok: "grid_ok g"
  shows "\<exists>g'. refresh_all g = Inr g' \<and> refreshed g' \<and> length g' = length g \<and>
           (\<forall>q. in_grid g q \<longrightarrow> cell g' q = (cell g q)\<lparr>neighbors := open_neighbors g q\<rparr>)"
proof -
  have "\<forall>p \<in> set (all_nodes g). in_grid g p" using set_all_nodes[OF ok] by simp
  from for_each_refresh[OF ok this] obtain g' where g':
    "for_each refresh_node (all_nodes g) g = Inr g'" "grid_ok g'" "length g' = length g"
    "\<forall>q. in_grid g q \<longrightarrow>
       cell g' q = (if q \<in> set (all_nodes g) then (cell g q)\<lparr>neighbors := open_neighbors g q\<rparr>
                    else cell g q)"
    by blast
  have c: "\<forall>q. in_grid g q \<longrightarrow> cell g' q = (cell g q)\<lparr>neighbors := open_neighbors g q\<rparr>"
    using g'(4) set_all_nodes[OF ok] by simp
  have on: "\<And>q. open_neighbors g' q = open_neighbors g q"
    by (rule open_neighbors_cong) (auto simp: c g'(3))
  have "refreshed g'"
    unfolding refreshed_def using g'(2) set_all_nodes[OF g'(2)] c on
    by (auto simp: in_grid_def g'(3))
  then show ?thesis using g'(1,3) c by (auto simp: refresh_all_def)
qed

text \<open>What a neighbour list of a refreshed grid holds.\<close>

lemma adjacent_iff:
  "(q::int \<times> int) \<in> set [(fst p + 1, snd p), (fst p - 1, snd p), (fst p, snd p + 1), (fst p, snd p - 1)]
     \<longleftrightarrow> \<bar>fst p - fst q\<bar> + \<bar>snd p - snd q\<bar> = 1"
proof -
  obtain a b where p: "p = (a, b)" by (cases p)
  obtain c d where q: "q = (c, d)" by (cases q)
  have "(c = a + 1 \<and> d = b \<or> c = a - 1 \<and> d = b \<or> c = a \<and> d = b + 1 \<or> c = a \<and> d = b - 1)
          \<longleftrightarrow> \<bar>a - c\<bar> + \<bar>b - d\<bar> = 1"
    by arith
  then show ?thesis by (simp add: p q)
qed

lemma in_open_neighbors:
  "q \<in> set (open_neighbors g p) \<longleftrightarrow>
     in_grid g q \<and> \<not> is_barrier (cell g q) \<and> \<bar>fst p - fst q\<bar> + \<bar>snd p - snd q\<bar> = 1"
  unfolding open_neighbors_def set_filter using adjacent_iff[of q p] by blast

text \<open>
  C8 (as stated). On the empty 5 by 5 grid with start \<open>(0, 0)\<close> and end \<open>(4, 4)\<close> the
  entry pushed for the start cell has priority \<open>0\<close>, while \<open>f_score[start]\<close> is \<open>8\<close>.
\<close>

theorem init_priority_counterexample:
  "open_set (init_state (projr (make_grid 5 800)) (0, 0) (4, 4)) = [(0, 0, (0, 0))] \<and>
   f_score (init_state (projr (make_grid 5 800)) (0, 0) (4, 4)) (0, 0) = Some 8"
  by (simp add: init_state_def pq_put_def make_grid_def heuristic_def get_pos_def cell_def
      Node_def upto.simps enat_numeral [symmetric] del: enat_numeral)

text \<open>
  C8 (amended). The search starts with the single queue entry \<open>(0, 0, start)\<close>, with
  \<open>g_score[start] = 0\<close> and with \<open>f_score[start]\<close> the Manhattan distance from start to
  end; the distance is stored in \<open>f_score\<close> and is not the priority of the entry.
\<close>

theorem init_state_start:
  "open_set (init_state g start end) = [(0, 0, start)] \<and>
   open_set_hash (init_state g start end) = {start} \<and>
   g_score (init_state g start end) start = Some 0 \<and>
   f_score (init_state g start end) start =
     Some (enat (nat (heuristic (get_pos (cell g start)) (get_pos (cell g end))))) \<and>
   heuristic (row a, col a) (row b, col b) = \<bar>row a - row b\<bar> + \<bar>col a - col b\<bar>"
  by (simp add: init_state_def pq_put_def heuristic_def)

text \<open>
  C6 (as stated). In the 2 by 2 grid whose cell \<open>(0, 0)\<close> is a barrier, after the refresh
  the barrier lists \<open>(1, 0)\<close> as a neighbour, and \<open>(1, 0)\<close> does not list the barrier.
\<close>

theorem neighbor_symmetry_counterexample:
  "(1, 0) \<in> set (neighbors (cell (projr (refresh_all corner_barrier)) (0, 0))) \<and>
   (0, 0) \<notin> set (neighbors (cell (projr (refresh_all corner_barrier)) (1, 0)))"
  by code_simp

text \<open>
  C6 (amended). After the refresh of a well-formed grid, two cells that are both not
  barriers list each other or neither lists the other.
\<close>

theorem neighbor_symmetry:
  assumes "grid_ok g" "refresh_all g = Inr g'" "in_grid g a" "in_grid g b"
    "\<not> is_barrier (cell g a)" "\<not> is_barrier (cell g b)"
  shows "b \<in> set (neighbors (cell g' a)) \<longleftrightarrow> a \<in> set (neighbors (cell g' b))"
proof -
  from refresh_all_ok[OF assms(1)] assms(2)
  have c: "\<forall>q. in_grid g q \<longrightarrow> cell g' q = (cell g q)\<lparr>neighbors := open_neighbors g q\<rparr>"
    by auto
  have "neighbors (cell g' a) = open_neighbors g a" "neighbors (cell g' b) = open_neighbors g b"
    using c[rule_format, OF assms(3)] c[rule_format, OF assms(4)] by simp_all
  then show ?thesis
    using assms(3-6) by (auto simp: in_open_neighbors)
qed

theorem neighbor_symmetry_witness:
  "grid_ok (projr (make_grid 2 800)) \<and>
   (\<exists>g'. refresh_all (projr (make_grid 2 800)) = Inr g' \<and>
      ((0, 1) \<in> set (neighbors (cell g' (0, 0))) \<longleftrightarrow> (0, 0) \<in> set (neighbors (cell g' (0, 1)))) \<and>
      (0, 1) \<in> set (neighbors (cell g' (0, 0))))"
proof -
  have ok: "grid_ok (projr (make_grid 2 800))" by code_simp
  obtain g' where g': "refresh_all (projr (make_grid 2 800)) = Inr g'"
    using refresh_all_ok[OF ok] by blast
  have a: "in_grid (projr (make_grid 2 800)) (0, 0)" by code_simp
  have b: "in_grid (projr (make_grid 2 800)) (0, 1)" by code_simp
  have na: "\<not> is_barrier (cell (projr (make_grid 2 800)) (0, 0))" by code_simp
  have nb: "\<not> is_barrier (cell (projr (make_grid 2 800)) (0, 1))" by code_simp
  have "projr (refresh_all (projr (make_grid 2 800))) = g'" using g' by simp
  moreover have "(0, 1) \<in> set (neighbors (cell (projr (refresh_all (projr (make_grid 2 800)))) (0, 0)))"
    by code_simp
  ultimately have "(0, 1) \<in> set (neighbors (cell g' (0, 0)))" by simp
  then show ?thesis
    using neighbor_symmetry[OF ok g' a b na nb] ok g' by blast
qed

theorem update_neighbors_spec_witness:
  "grid_ok corner_barrier \<and> in_grid corner_barrier (1, 1) \<and>
   (\<exists>n. update_neighbors (cell corner_barrier (1, 1)) corner_barrier = Inr n \<and>
        neighbors n = [(0, 1), (1, 0)])"
proof -
  have ok: "grid_ok corner_barrier" by code_simp
  have p: "in_grid corner_barrier (1, 1)" by code_simp
  have "filter (\<lambda>q. in_grid corner_barrier q \<and> \<not> is_barrier (cell corner_barrier q))
          [(fst (1, 1) + 1, snd (1, 1)), (fst (1, 1) - 1, snd (1, 1)),
           (fst (1, 1), snd (1, 1) + 1), (fst (1, 1), snd (1, 1) - 1)] = [(0, 1), (1, 0)]"
    by code_simp
  then show ?thesis using update_neighbors_spec[OF ok p] ok p by auto
qed

section \<open>Properties of the search\<close>

lemma step_ok_iff: "step_ok g p q \<longleftrightarrow> q \<in> set (open_neighbors g p)"
  by (simp add: step_ok_def in_open_neighbors)

lemma step_ok_neq: "step_ok g p q \<Longrightarrow> p \<noteq> q"
  by (auto simp: step_ok_def)

lemma finite_in_grid: "finite {p. in_grid g p}"
proof -
  have "{p. in_grid g p} \<subseteq> {0 ..< int (length g)} \<times> {0 ..< int (length g)}"
    by (auto simp: in_grid_def)
  then show ?thesis by (rule finite_subset) simp
qed

lemma enat_plus_one: "enat d + 1 = enat (d + 1)"
  by (simp add: one_enat_def)

lemma relax_fields:
  assumes c: "g_score s cur = Some (enat dc)" and q: "g_score s q = Some gq"
  shows "\<exists>s'. relax en cur q s = Inr s' \<and>
     g_score s' = (if enat (dc + 1) < gq then (g_score s)(q \<mapsto> enat (dc + 1)) else g_score s) \<and>
     came_from s' = (if enat (dc + 1) < gq then (came_from s)(q \<mapsto> cur) else came_from s) \<and>
     open_set_hash s' = (if enat (dc + 1) < gq then insert q (open_set_hash s) else open_set_hash s) \<and>
     open_set s' = (if enat (dc + 1) < gq \<and> q \<notin> open_set_hash s
        then open_set s @ [(enat (dc + 1) +
               enat (nat (heuristic (get_pos (cell (cells s) q)) (get_pos (cell (cells s) en)))),
               count s + 1, q)]
        else open_set s) \<and>
     count s' = (if enat (dc + 1) < gq \<and> q \<notin> open_set_hash s then count s + 1 else count s) \<and>
     cells s' = (if enat (dc + 1) < gq \<and> q \<notin> open_set_hash s
        then set_cell (cells s) q (make_open (cell (cells s) q)) else cells s)"
  by (auto simp: relax_def c q Let_def enat_plus_one pq_put_def)

lemma inv_grid_recolor:
  assumes g: "inv_grid g0 s" and q: "in_grid g0 q" "\<not> is_barrier (cell g0 q)"
    and c: "c \<noteq> Color_BARRIER"
    and s': "cells s' = set_cell (cells s) q ((cell (cells s) q)\<lparr>color := c\<rparr>)"
  shows "inv_grid g0 s'"
proof -
  have ok: "grid_ok (cells s)" and len: "length (cells s) = length g0"
    using g by (auto simp: inv_grid_def)
  have q': "in_grid (cells s) q" using q len by (simp add: in_grid_def)
  have ok': "grid_ok (cells s')"
    unfolding s' using grid_ok_cell[OF ok q'] by (intro grid_ok_set_cell[OF ok q']) auto
  have cs: "\<And>p. in_grid g0 p \<Longrightarrow>
      cell (cells s') p = (if p = q then (cell (cells s) q)\<lparr>color := c\<rparr> else cell (cells s) p)"
    unfolding s' using cell_set_cell[OF ok q'] len by (simp add: in_grid_def)
  have old: "\<And>p. in_grid g0 p \<Longrightarrow>
         cell (cells s) p = (cell g0 p)\<lparr>color := color (cell (cells s) p)\<rparr> \<and>
         (is_barrier (cell g0 p) \<longrightarrow> color (cell (cells s) p) = color (cell g0 p)) \<and>
         (\<not> is_barrier (cell g0 p) \<longrightarrow> \<not> is_barrier (cell (cells s) p))"
    using g unfolding inv_grid_def by blast
  have "\<And>p. in_grid g0 p \<Longrightarrow>
         cell (cells s') p = (cell g0 p)\<lparr>color := color (cell (cells s') p)\<rparr> \<and>
         (is_barrier (cell g0 p) \<longrightarrow> color (cell (cells s') p) = color (cell g0 p)) \<and>
         (\<not> is_barrier (cell g0 p) \<longrightarrow> \<not> is_barrier (cell (cells s') p))"
  proof -
    fix p assume p: "in_grid g0 p"
    show "cell (cells s') p = (cell g0 p)\<lparr>color := color (cell (cells s') p)\<rparr> \<and>
         (is_barrier (cell g0 p) \<longrightarrow> color (cell (cells s') p) = color (cell g0 p)) \<and>
         (\<not> is_barrier (cell g0 p) \<longrightarrow> \<not> is_barrier (cell (cells s') p))"
    proof (cases "p = q")
      case True
      have "cell (cells s) q = (cell g0 q)\<lparr>color := color (cell (cells s) q)\<rparr>"
        using old[OF q(1)] by simp
      then have "(cell (cells s) q)\<lparr>color := c\<rparr> = (cell g0 q)\<lparr>color := c\<rparr>"
        by (metis node.update_convs(5) node.surjective)
      then show ?thesis using True cs[OF p] q(2) c by (simp add: is_barrier_def)
    next
      case False
      then show ?thesis using cs[OF p] old[OF p] by simp
    qed
  qed
  then show ?thesis
    unfolding inv_grid_def using ok' len s' by simp
qed

lemma inv_grid_same: "inv_grid g0 s \<Longrightarrow> cells s' = cells s \<Longrightarrow> inv_grid g0 s'"
  by (simp add: inv_grid_def)

lemma inv_grid_neighbors:
  assumes "refreshed g0" "inv_grid g0 s" "in_grid g0 p"
  shows "neighbors (cell (cells s) p) = open_neighbors g0 p"
    "get_pos (cell (cells s) p) = p"
proof -
  have c: "cell (cells s) p = (cell g0 p)\<lparr>color := color (cell (cells s) p)\<rparr>"
    using assms(2,3) unfolding inv_grid_def by blast
  have ok: "grid_ok g0" using assms(1) by (simp add: refreshed_def)
  have "neighbors (cell g0 p) = open_neighbors g0 p"
    using assms(1,3) set_all_nodes[OF ok] unfolding refreshed_def by blast
  then show "neighbors (cell (cells s) p) = open_neighbors g0 p"
    by (subst c) simp
  have "get_pos (cell g0 p) = p" using grid_ok_cell[OF ok assms(3)] by (simp add: get_pos_def)
  then show "get_pos (cell (cells s) p) = p"
    by (subst c) (simp add: get_pos_def)
qed

lemma inv_queue_improve:
  assumes i: "inv_queue g0 s" and q: "in_grid g0 q"
    and g: "g_score s' = (g_score s)(q \<mapsto> enat t)"
    and h: "open_set_hash s' = insert q (open_set_hash s)"
    and o: "open_set s' = (if q \<notin> open_set_hash s then open_set s @ [(f, c, q)] else open_set s)"
  shows "inv_queue g0 s'"
  using i q unfolding inv_queue_def g h o
  by (auto simp: node_of_def)

lemma inv_tree_improve:
  assumes i: "inv_tree g0 start s" and cur: "g_score s cur = Some (enat dc)" "in_grid g0 cur"
    and q: "g_score s q = Some gq" "enat (dc + 1) < gq" "step_ok g0 cur q"
    and g: "g_score s' = (g_score s)(q \<mapsto> enat (dc + 1))"
    and c: "came_from s' = (came_from s)(q \<mapsto> cur)"
  shows "inv_tree g0 start s'"
proof -
  have qs: "q \<noteq> start" using i q(1,2) by (auto simp: inv_tree_def zero_enat_def)
  have qc: "q \<noteq> cur" using q(3) by (auto simp: step_ok_def)
  have old: "\<And>p r. came_from s p = Some r \<Longrightarrow>
         in_grid g0 r \<and> step_ok g0 r p \<and>
         (\<exists>d dq. g_score s p = Some (enat d) \<and> g_score s r = Some (enat dq) \<and> dq < d)"
    using i unfolding inv_tree_def by blast
  have new: "\<And>p r. came_from s' p = Some r \<Longrightarrow>
         in_grid g0 r \<and> step_ok g0 r p \<and>
         (\<exists>d dq. g_score s' p = Some (enat d) \<and> g_score s' r = Some (enat dq) \<and> dq < d)"
  proof -
    fix p r assume pr: "came_from s' p = Some r"
    show "in_grid g0 r \<and> step_ok g0 r p \<and>
         (\<exists>d dq. g_score s' p = Some (enat d) \<and> g_score s' r = Some (enat dq) \<and> dq < d)"
    proof (cases "p = q")
      case True
      then have "r = cur" using pr c by simp
      then show ?thesis using True cur q(3) qc g by simp
    next
      case False
      then have o: "came_from s p = Some r" using pr c by simp
      from old[OF o] obtain d dq where d: "in_grid g0 r" "step_ok g0 r p"
        "g_score s p = Some (enat d)" "g_score s r = Some (enat dq)" "dq < d" by blast
      show ?thesis
      proof (cases "r = q")
        case True
        then have "dc + 1 < dq" using q(1,2) d(4) by simp
        then show ?thesis using True False d g by simp
      next
        case r: False
        then show ?thesis using False d g by simp
      qed
    qed
  qed
  have oldfin: "\<And>p d. g_score s p = Some (enat d) \<Longrightarrow> p = start \<or> came_from s p \<noteq> None"
    using i unfolding inv_tree_def by blast
  have fin: "\<And>p d. g_score s' p = Some (enat d) \<Longrightarrow> p = start \<or> came_from s' p \<noteq> None"
  proof -
    fix p d assume pd: "g_score s' p = Some (enat d)"
    show "p = start \<or> came_from s' p \<noteq> None"
    proof (cases "p = q")
      case True
      then show ?thesis using c by simp
    next
      case False
      then show ?thesis using pd oldfin[of p d] g c by simp
    qed
  qed
  have "in_grid g0 start" "g_score s' start = Some 0" "came_from s' start = None"
    using i qs unfolding inv_tree_def g c by simp_all
  then show ?thesis
    unfolding inv_tree_def using new fin by blast
qed

lemma inv_closed_improve:
  assumes i: "inv_closed g0 todo s" and cur: "g_score s cur = Some (enat dc)"
    and q: "g_score s q = Some gq" "enat (dc + 1) < gq"
    and g: "g_score s' = (g_score s)(q \<mapsto> enat (dc + 1))"
    and h: "open_set_hash s' = insert q (open_set_hash s)"
  shows "inv_closed g0 (todo - {(cur, q)}) s'"
  unfolding inv_closed_def
proof (intro allI impI)
  fix p r d
  assume p: "g_score s' p = Some (enat d)" "p \<notin> open_set_hash s'" "step_ok g0 p r"
    "(p, r) \<notin> todo - {(cur, q)}"
  have pq: "p \<noteq> q" using p(2) h by auto
  then have pg: "g_score s p = Some (enat d)" "p \<notin> open_set_hash s" using p(1,2) g h by auto
  show "\<exists>dq. g_score s' r = Some (enat dq) \<and> dq \<le> d + 1"
  proof (cases "(p, r) = (cur, q)")
    case True
    then show ?thesis using pg cur g by simp
  next
    case False
    then have "(p, r) \<notin> todo" using p(4) by simp
    with i pg p(3) obtain dq where dq: "g_score s r = Some (enat dq)" "dq \<le> d + 1"
      unfolding inv_closed_def by blast
    show ?thesis
    proof (cases "r = q")
      case True
      then have "dc + 1 < dq" using q dq(1) by simp
      then show ?thesis using True dq g by simp
    next
      case False
      then show ?thesis using dq g by simp
    qed
  qed
qed

lemma inv_closed_keep:
  assumes i: "inv_closed g0 todo s" and cur: "g_score s cur = Some (enat dc)"
    and q: "g_score s q = Some gq" "\<not> enat (dc + 1) < gq"
    and g: "g_score s' = g_score s" and h: "open_set_hash s' = open_set_hash s"
  shows "inv_closed g0 (todo - {(cur, q)}) s'"
  unfolding inv_closed_def
proof (intro allI impI)
  fix p r d
  assume p: "g_score s' p = Some (enat d)" "p \<notin> open_set_hash s'" "step_ok g0 p r"
    "(p, r) \<notin> todo - {(cur, q)}"
  show "\<exists>dq. g_score s' r = Some (enat dq) \<and> dq \<le> d + 1"
  proof (cases "(p, r) = (cur, q)")
    case True
    obtain dq where "gq = enat dq" using q(2) by (cases gq) auto
    then show ?thesis using True p(1) cur q g by simp
  next
    case False
    then have "(p, r) \<notin> todo" using p(4) by simp
    with i p show ?thesis unfolding inv_closed_def g h by blast
  qed
qed

lemma inv_closed_mono:
  "inv_closed g0 todo s \<Longrightarrow> todo \<subseteq> todo' \<Longrightarrow> inv_closed g0 todo' s"
  unfolding inv_closed_def by blast

lemma finite_reached: "inv_queue g0 s \<Longrightarrow> finite (reached s)"
proof -
  assume "inv_queue g0 s"
  then have "reached s \<subseteq> {p. in_grid g0 p}" by (auto simp: inv_queue_def reached_def)
  then show ?thesis using finite_in_grid by (rule finite_subset)
qed

lemma reached_improve:
  "g_score s' = (g_score s)(q \<mapsto> enat t) \<Longrightarrow> reached s' = insert q (reached s)"
  by (auto simp: reached_def)

lemma inv_bound_improve:
  assumes i: "inv_bound s" and iq: "inv_queue g0 s" and cur: "g_score s cur = Some (enat dc)"
    and q: "g_score s q = Some gq" "enat (dc + 1) < gq"
    and g: "g_score s' = (g_score s)(q \<mapsto> enat (dc + 1))"
  shows "inv_bound s'"
proof -
  have fin: "finite (reached s)" by (rule finite_reached[OF iq])
  have r: "reached s' = insert q (reached s)" by (rule reached_improve[OF g])
  have dc: "dc < card (reached s)" using i cur unfolding inv_bound_def by blast
  have le: "card (reached s) \<le> card (reached s')" unfolding r using fin by (simp add: card_insert_le)
  have qb: "dc + 1 < card (reached s')"
  proof (cases "q \<in> reached s")
    case True
    then obtain dq where "g_score s q = Some (enat dq)" by (auto simp: reached_def)
    then have "dc + 1 < dq" "dq < card (reached s)" using q i unfolding inv_bound_def by (simp, blast)
    then show ?thesis using le by simp
  next
    case False
    then show ?thesis unfolding r using fin dc by simp
  qed
  show ?thesis
    unfolding inv_bound_def
  proof (intro allI impI)
    fix p d assume pd: "g_score s' p = Some (enat d)"
    show "d < card (reached s')"
    proof (cases "p = q")
      case True
      then show ?thesis using pd qb g by simp
    next
      case False
      then have "g_score s p = Some (enat d)" using pd g by simp
      then have "d < card (reached s)" using i unfolding inv_bound_def by blast
      then show ?thesis using le by simp
    qed
  qed
qed

lemma score_nat_other:
  "g_score s' = (g_score s)(q \<mapsto> t) \<Longrightarrow> p \<noteq> q \<Longrightarrow> score_nat g0 s' p = score_nat g0 s p"
  by (simp add: score_nat_def)

lemma potential_improve:
  assumes iq: "inv_queue g0 s" and ib: "inv_bound s" and cur: "g_score s cur = Some (enat dc)"
    and q: "in_grid g0 q" "g_score s q = Some gq" "enat (dc + 1) < gq"
    and g: "g_score s' = (g_score s)(q \<mapsto> enat (dc + 1))"
    and o: "length (open_set s') \<le> length (open_set s) + 1"
  shows "potential g0 s' < potential g0 s"
proof -
  let ?V = "{p. in_grid g0 p}"
  have fin: "finite ?V" by (rule finite_in_grid)
  have qV: "q \<in> ?V" using q(1) by simp
  have dc: "dc < card (reached s)" using ib cur unfolding inv_bound_def by blast
  have sub: "reached s \<subseteq> ?V" using iq by (auto simp: inv_queue_def reached_def)
  have new: "score_nat g0 s' q = dc + 1" by (simp add: score_nat_def g)
  have old: "dc + 1 < score_nat g0 s q"
  proof (cases gq)
    case (enat dq)
    then show ?thesis using q(2,3) by (simp add: score_nat_def)
  next
    case infinity
    then have "q \<notin> reached s" using q(2) by (simp add: reached_def)
    then have "reached s \<subset> ?V" using sub qV by blast
    then have "card (reached s) < card ?V" using fin by (rule psubset_card_mono[rotated])
    then show ?thesis using infinity q(2) dc by (simp add: score_nat_def)
  qed
  have rest: "(\<Sum>p \<in> ?V - {q}. score_nat g0 s' p) = (\<Sum>p \<in> ?V - {q}. score_nat g0 s p)"
    by (rule sum.cong) (auto simp: score_nat_other[OF g])
  have "(\<Sum>p \<in> ?V. score_nat g0 s' p) = score_nat g0 s' q + (\<Sum>p \<in> ?V - {q}. score_nat g0 s' p)"
    by (rule sum.remove[OF fin qV])
  moreover have "(\<Sum>p \<in> ?V. score_nat g0 s p) = score_nat g0 s q + (\<Sum>p \<in> ?V - {q}. score_nat g0 s p)"
    by (rule sum.remove[OF fin qV])
  ultimately have "(\<Sum>p \<in> ?V. score_nat g0 s' p) < (\<Sum>p \<in> ?V. score_nat g0 s p)"
    using new old rest by simp
  then show ?thesis using o by (simp add: potential_def)
qed

lemma potential_same:
  "g_score s' = g_score s \<Longrightarrow> length (open_set s') \<le> length (open_set s) \<Longrightarrow>
   potential g0 s' \<le> potential g0 s"
  by (simp add: potential_def score_nat_def)

lemma search_inv_mono:
  "search_inv g0 start todo s \<Longrightarrow> todo \<subseteq> todo' \<Longrightarrow> search_inv g0 start todo' s"
  unfolding search_inv_def using inv_closed_mono by blast

text \<open>One relaxation keeps the invariant and does not raise.\<close>

lemma relax_inv:
  assumes inv: "search_inv g0 start todo s" and ew: "end_waiting en s"
    and cur: "g_score s cur = Some (enat dc)" "cur \<notin> open_set_hash s" "in_grid g0 cur"
    and st: "step_ok g0 cur q"
  shows "\<exists>s'. relax en cur q s = Inr s' \<and> search_inv g0 start (todo - {(cur, q)}) s' \<and>
           end_waiting en s' \<and> g_score s' cur = Some (enat dc) \<and> cur \<notin> open_set_hash s' \<and>
           potential g0 s' \<le> potential g0 s"
proof -
  have ig: "inv_grid g0 s" and iq: "inv_queue g0 s" and it: "inv_tree g0 start s"
    and ic: "inv_closed g0 todo s" and ib: "inv_bound s" and rf: "refreshed g0"
    using inv by (simp_all add: search_inv_def)
  have qV: "in_grid g0 q" and qb: "\<not> is_barrier (cell g0 q)" and qc: "q \<noteq> cur"
    using st by (auto simp: step_ok_def)
  have "q \<in> dom (g_score s)" using iq qV by (simp add: inv_queue_def)
  then obtain gq where gq: "g_score s q = Some gq" by blast
  from relax_fields[OF cur(1) gq, of en] obtain s' where s':
    "relax en cur q s = Inr s'"
    "g_score s' = (if enat (dc + 1) < gq then (g_score s)(q \<mapsto> enat (dc + 1)) else g_score s)"
    "came_from s' = (if enat (dc + 1) < gq then (came_from s)(q \<mapsto> cur) else came_from s)"
    "open_set_hash s' = (if enat (dc + 1) < gq then insert q (open_set_hash s) else open_set_hash s)"
    "open_set s' = (if enat (dc + 1) < gq \<and> q \<notin> open_set_hash s
        then open_set s @ [(enat (dc + 1) +
               enat (nat (heuristic (get_pos (cell (cells s) q)) (get_pos (cell (cells s) en)))),
               count s + 1, q)]
        else open_set s)"
    "cells s' = (if enat (dc + 1) < gq \<and> q \<notin> open_set_hash s
        then set_cell (cells s) q (make_open (cell (cells s) q)) else cells s)"
    by blast
  show ?thesis
  proof (cases "enat (dc + 1) < gq")
    case True
    have g: "g_score s' = (g_score s)(q \<mapsto> enat (dc + 1))" using s'(2) True by simp
    have c: "came_from s' = (came_from s)(q \<mapsto> cur)" using s'(3) True by simp
    have h: "open_set_hash s' = insert q (open_set_hash s)" using s'(4) True by simp
    have o: "open_set s' = (if q \<notin> open_set_hash s
        then open_set s @ [(enat (dc + 1) +
               enat (nat (heuristic (get_pos (cell (cells s) q)) (get_pos (cell (cells s) en)))),
               count s + 1, q)]
        else open_set s)" using s'(5) True by simp
    have ig': "inv_grid g0 s'"
    proof (cases "q \<in> open_set_hash s")
      case True
      then show ?thesis using s'(6) ig by (auto intro: inv_grid_same)
    next
      case False
      then have "cells s' = set_cell (cells s) q ((cell (cells s) q)\<lparr>color := Color_OPEN\<rparr>)"
        using s'(6) True by (simp add: make_open_def)
      then show ?thesis
        by (rule inv_grid_recolor[OF ig qV qb, rotated]) (simp add: Color_defs)
    qed
    have iq': "inv_queue g0 s'" by (rule inv_queue_improve[OF iq qV g h o])
    have it': "inv_tree g0 start s'" by (rule inv_tree_improve[OF it cur(1,3) gq True st g c])
    have ic': "inv_closed g0 (todo - {(cur, q)}) s'"
      by (rule inv_closed_improve[OF ic cur(1) gq True g h])
    have ib': "inv_bound s'" by (rule inv_bound_improve[OF ib iq cur(1) gq True g])
    have ew': "end_waiting en s'"
      using ew unfolding end_waiting_def g h by (auto split: if_splits)
    have "length (open_set s') \<le> length (open_set s) + 1" using o by simp
    then have "potential g0 s' < potential g0 s"
      by (rule potential_improve[OF iq ib cur(1) qV gq True g])
    then show ?thesis
      using s'(1) rf ig' iq' it' ic' ib' ew' cur qc g h by (simp add: search_inv_def)
  next
    case False
    have g: "g_score s' = g_score s" and h: "open_set_hash s' = open_set_hash s"
      and o: "open_set s' = open_set s" and c: "came_from s' = came_from s"
      and ce: "cells s' = cells s"
      using s' False by simp_all
    have ic': "inv_closed g0 (todo - {(cur, q)}) s'"
      by (rule inv_closed_keep[OF ic cur(1) gq False g h])
    have "inv_grid g0 s'" using ig ce by (rule inv_grid_same)
    moreover have "inv_queue g0 s'" using iq by (simp add: inv_queue_def g h o)
    moreover have "inv_tree g0 start s'" using it by (simp add: inv_tree_def g c)
    moreover have "inv_bound s'" using ib by (simp add: inv_bound_def reached_def g)
    moreover have "end_waiting en s'" using ew by (simp add: end_waiting_def g h)
    moreover have "potential g0 s' \<le> potential g0 s" by (rule potential_same) (simp_all add: g o)
    ultimately show ?thesis
      using s'(1) rf ic' cur g h by (simp add: search_inv_def)
  qed
qed

text \<open>The whole \<open>for\<close> loop over a list of cells one step from \<open>cur\<close>.\<close>

lemma for_each_relax_inv:
  assumes "search_inv g0 start (todo \<union> {cur} \<times> set qs) s" "end_waiting en s"
    "g_score s cur = Some (enat dc)" "cur \<notin> open_set_hash s" "in_grid g0 cur"
    "\<forall>q \<in> set qs. step_ok g0 cur q"
  shows "\<exists>s'. for_each (relax en cur) qs s = Inr s' \<and> search_inv g0 start todo s' \<and>
           end_waiting en s' \<and> g_score s' cur = Some (enat dc) \<and> cur \<notin> open_set_hash s' \<and>
           potential g0 s' \<le> potential g0 s"
  using assms
proof (induction qs arbitrary: s)
  case Nil
  then show ?case by simp
next
  case (Cons q qs)
  have st: "step_ok g0 cur q" using Cons.prems(6) by simp
  from relax_inv[OF Cons.prems(1,2,3,4,5) st] obtain s1 where s1:
    "relax en cur q s = Inr s1"
    "search_inv g0 start (todo \<union> {cur} \<times> set (q # qs) - {(cur, q)}) s1"
    "end_waiting en s1" "g_score s1 cur = Some (enat dc)" "cur \<notin> open_set_hash s1"
    "potential g0 s1 \<le> potential g0 s"
    by blast
  have "search_inv g0 start (todo \<union> {cur} \<times> set qs) s1"
    by (rule search_inv_mono[OF s1(2)]) auto
  from Cons.IH[OF this s1(3,4,5) Cons.prems(5)] Cons.prems(6) obtain s' where s':
    "for_each (relax en cur) qs s1 = Inr s'" "search_inv g0 start todo s'"
    "end_waiting en s'" "g_score s' cur = Some (enat dc)" "cur \<notin> open_set_hash s'"
    "potential g0 s' \<le> potential g0 s1"
    by auto
  then show ?case using s1(1,6) by simp
qed

declare pq_get.simps [simp del]

lemma least_entry_in: "least_entry x xs \<in> set (x # xs)"
  by (induction xs arbitrary: x) (auto split: if_splits)

lemma pq_get_in:
  assumes "q \<noteq> []"
  shows "fst (pq_get q) \<in> set q" "snd (pq_get q) = remove1 (fst (pq_get q)) q"
proof -
  obtain x xs where q: "q = x # xs" using assms by (cases q) auto
  show "fst (pq_get q) \<in> set q"
    using least_entry_in[of x xs] by (simp add: q Let_def pq_get.simps)
  show "snd (pq_get q) = remove1 (fst (pq_get q)) q"
    by (simp add: Let_def pq_get.simps)
qed

lemma image_remove1_distinct:
  assumes "distinct (map f xs)" "e \<in> set xs"
  shows "f ` set (remove1 e xs) = f ` set xs - {f e}" "distinct (map f (remove1 e xs))"
proof -
  have d: "distinct xs" and i: "inj_on f (set xs)" using assms(1) by (simp_all add: distinct_map)
  have s: "set (remove1 e xs) = set xs - {e}" using d by simp
  show "f ` set (remove1 e xs) = f ` set xs - {f e}"
    unfolding s using i assms(2) by (auto simp: inj_on_def)
  have "inj_on f (set (remove1 e xs))" using i unfolding s by (auto simp: inj_on_def)
  then show "distinct (map f (remove1 e xs))" using d by (simp add: distinct_map)
qed

text \<open>Taking the next cell out of the queue.\<close>

lemma pop_inv:
  assumes inv: "search_inv g0 start {} s" and ne: "open_set s \<noteq> []"
  shows "next_node s \<in> open_set_hash s" "in_grid g0 (next_node s)"
    "\<exists>dc. g_score s (next_node s) = Some (enat dc)"
    "search_inv g0 start ({next_node s} \<times> set (open_neighbors g0 (next_node s))) (pop_state s)"
    "potential g0 (pop_state s) < potential g0 s"
    "next_node s \<notin> open_set_hash (pop_state s)"
proof -
  let ?e = "fst (pq_get (open_set s))"
  have ig: "inv_grid g0 s" and iq: "inv_queue g0 s" and it: "inv_tree g0 start s"
    and ic: "inv_closed g0 {} s" and ib: "inv_bound s" and rf: "refreshed g0"
    using inv by (simp_all add: search_inv_def)
  have e: "?e \<in> set (open_set s)" and q: "snd (pq_get (open_set s)) = remove1 ?e (open_set s)"
    using pq_get_in[OF ne] by simp_all
  have n: "next_node s = node_of ?e" by (simp add: next_node_def node_of_def)
  have hs: "open_set_hash s = node_of ` set (open_set s)"
    and di: "distinct (map node_of (open_set s))"
    and dm: "dom (g_score s) = {p. in_grid g0 p}"
    and hf: "\<forall>p \<in> open_set_hash s. \<exists>d. g_score s p = Some (enat d)"
    using iq by (simp_all add: inv_queue_def)
  show 1: "next_node s \<in> open_set_hash s" using e hs n by simp
  show 3: "\<exists>dc. g_score s (next_node s) = Some (enat dc)" using hf 1 by blast
  then have "next_node s \<in> dom (g_score s)" by blast
  then show "in_grid g0 (next_node s)" using dm by simp
  have g: "g_score (pop_state s) = g_score s" and c: "came_from (pop_state s) = came_from s"
    and ce: "cells (pop_state s) = cells s"
    and h: "open_set_hash (pop_state s) = open_set_hash s - {next_node s}"
    by (simp_all add: pop_state_def)
  have o: "open_set (pop_state s) = remove1 ?e (open_set s)"
    using q by (simp add: pop_state_def)
  show "next_node s \<notin> open_set_hash (pop_state s)" using h by simp
  have "length (open_set (pop_state s)) < length (open_set s)"
    unfolding o using e ne by (simp add: length_remove1)
  then show "potential g0 (pop_state s) < potential g0 s"
    by (simp add: potential_def score_nat_def g)
  have ig': "inv_grid g0 (pop_state s)" using ig ce by (rule inv_grid_same)
  have iq': "inv_queue g0 (pop_state s)"
    unfolding inv_queue_def g h o
    using image_remove1_distinct[OF di e] dm hs hf n by auto
  have it': "inv_tree g0 start (pop_state s)" using it by (simp add: inv_tree_def g c)
  have ib': "inv_bound (pop_state s)" using ib by (simp add: inv_bound_def reached_def g)
  have ic': "inv_closed g0 ({next_node s} \<times> set (open_neighbors g0 (next_node s))) (pop_state s)"
    unfolding inv_closed_def
  proof (intro allI impI)
    fix p r d
    assume p: "g_score (pop_state s) p = Some (enat d)" "p \<notin> open_set_hash (pop_state s)"
      "step_ok g0 p r" "(p, r) \<notin> {next_node s} \<times> set (open_neighbors g0 (next_node s))"
    have "p \<noteq> next_node s" using p(3,4) by (auto simp: step_ok_iff)
    then have "p \<notin> open_set_hash s" using p(2) h by simp
    then show "\<exists>dq. g_score (pop_state s) r = Some (enat dq) \<and> dq \<le> d + 1"
      using ic p(1,3) unfolding inv_closed_def g by blast
  qed
  show "search_inv g0 start ({next_node s} \<times> set (open_neighbors g0 (next_node s))) (pop_state s)"
    using rf ig' iq' it' ic' ib' by (simp add: search_inv_def)
qed

text \<open>A whole pass of the loop that does not meet \<open>end\<close>.\<close>

lemma expand_inv:
  assumes inv: "search_inv g0 start {} s" and ew: "end_waiting en s"
    and ne: "open_set s \<noteq> []" and nn: "next_node s \<noteq> en"
  shows "\<exists>s2. expand start en (next_node s) (pop_state s) = Inr s2 \<and>
           search_inv g0 start {} s2 \<and> end_waiting en s2 \<and> potential g0 s2 < potential g0 s"
proof -
  let ?cur = "next_node s"
  let ?s1 = "pop_state s"
  note p = pop_inv[OF inv ne]
  obtain dc where dc: "g_score s ?cur = Some (enat dc)" using p(3) by blast
  have g1: "g_score ?s1 = g_score s" by (simp add: pop_state_def)
  have ew1: "end_waiting en ?s1"
    using ew nn unfolding end_waiting_def by (simp add: pop_state_def)
  have nb: "neighbors (cell (cells ?s1) ?cur) = open_neighbors g0 ?cur"
    using inv_grid_neighbors(1)[of g0 ?s1 ?cur] p(2,4) by (simp add: search_inv_def)
  have todo: "search_inv g0 start ({} \<union> {?cur} \<times> set (open_neighbors g0 ?cur)) ?s1"
    using p(4) by simp
  have steps: "\<forall>q \<in> set (open_neighbors g0 ?cur). step_ok g0 ?cur q"
    by (simp add: step_ok_iff)
  from for_each_relax_inv[OF todo ew1 _ p(6,2) steps, of dc] dc g1
  obtain s' where s':
    "for_each (relax en ?cur) (open_neighbors g0 ?cur) ?s1 = Inr s'"
    "search_inv g0 start {} s'" "end_waiting en s'" "g_score s' ?cur = Some (enat dc)"
    "potential g0 s' \<le> potential g0 ?s1"
    by auto
  let ?s2 = "if ?cur \<noteq> start
             then s'\<lparr>cells := set_cell (cells s') ?cur (make_closed (cell (cells s') ?cur))\<rparr>
             else s'"
  have ex: "expand start en ?cur ?s1 = Inr ?s2"
    by (simp add: expand_def nb s'(1))
  have pot: "potential g0 ?s2 < potential g0 s"
    using s'(5) p(5) by (simp add: potential_def score_nat_def)
  have ew2: "end_waiting en ?s2" using s'(3) by (simp add: end_waiting_def)
  have inv2: "search_inv g0 start {} ?s2"
  proof (cases "?cur = start")
    case True
    then show ?thesis using s'(2) by simp
  next
    case False
    have it: "inv_tree g0 start s'" and ig: "inv_grid g0 s'"
      using s'(2) by (simp_all add: search_inv_def)
    from it s'(4) False obtain r where "came_from s' ?cur = Some r"
      unfolding inv_tree_def by blast
    with it have "step_ok g0 r ?cur" unfolding inv_tree_def by blast
    then have nbar: "\<not> is_barrier (cell g0 ?cur)" by (simp add: step_ok_def)
    have "inv_grid g0 ?s2"
      by (rule inv_grid_recolor[OF ig p(2) nbar, of Color_CLOSED])
         (simp_all add: Color_defs False make_closed_def)
    then show ?thesis
      using s'(2) False
      by (simp add: search_inv_def inv_queue_def inv_tree_def inv_closed_def inv_bound_def
          reached_def)
  qed
  show ?thesis using ex inv2 ew2 pot by blast
qed

lemma search_loop_step:
  assumes "open_set s \<noteq> []" "next_node s \<in> open_set_hash s"
  shows "search_loop start en s =
     (if next_node s = en then Some (Inr (True, pop_state s))
      else (case expand start en (next_node s) (pop_state s) of
              Inl err \<Rightarrow> Some (Inl err)
            | Inr s2 \<Rightarrow> search_loop start en s2))"
  using assms
  by (subst search_loop.simps)
     (simp add: next_node_def pop_state_def Let_def case_prod_beta)

text \<open>
  The loop ends, without raising, and it ends in one of two ways: on an empty queue, or on
  taking \<open>end\<close> from the queue. \<open>I\<close> is any further property that every pass keeps.
\<close>

lemma search_loop_total:
  assumes "search_inv g0 start {} s" "end_waiting en s" "I s"
    and step: "\<And>t t2. search_inv g0 start {} t \<Longrightarrow> end_waiting en t \<Longrightarrow> I t \<Longrightarrow>
       open_set t \<noteq> [] \<Longrightarrow> next_node t \<noteq> en \<Longrightarrow>
       expand start en (next_node t) (pop_state t) = Inr t2 \<Longrightarrow> I t2"
  shows "\<exists>sl. search_inv g0 start {} sl \<and> end_waiting en sl \<and> I sl \<and>
           (if open_set sl = [] then search_loop start en s = Some (Inr (False, sl))
            else next_node sl = en \<and> search_loop start en s = Some (Inr (True, pop_state sl)))"
  using assms(1,2,3)
proof (induction "potential g0 s" arbitrary: s rule: less_induct)
  case less
  show ?case
  proof (cases "open_set s = []")
    case True
    then have "search_loop start en s = Some (Inr (False, s))"
      by (subst search_loop.simps) simp
    then show ?thesis using less.prems True by auto
  next
    case False
    note p = pop_inv[OF less.prems(1) False]
    show ?thesis
    proof (cases "next_node s = en")
      case True
      then have "search_loop start en s = Some (Inr (True, pop_state s))"
        using search_loop_step[OF False p(1)] by simp
      then show ?thesis using less.prems True False by auto
    next
      case nn: False
      from expand_inv[OF less.prems(1,2) False nn] obtain s2 where s2:
        "expand start en (next_node s) (pop_state s) = Inr s2"
        "search_inv g0 start {} s2" "end_waiting en s2" "potential g0 s2 < potential g0 s"
        by blast
      have I2: "I s2" by (rule step[OF less.prems(1,2,3) False nn s2(1)])
      have eq: "search_loop start en s = search_loop start en s2"
        using search_loop_step[OF False p(1)] nn s2(1) by simp
      show ?thesis unfolding eq by (rule less.hyps[OF s2(4) s2(2,3) I2])
    qed
  qed
qed

lemma map_of_const:
  "map_of (map (\<lambda>n. (n, c)) xs) p = (if p \<in> set xs then Some c else None)"
  by (induction xs) auto

lemma init_inv:
  assumes rf: "refreshed g0" and st: "in_grid g0 start"
  shows "search_inv g0 start {} (init_state g0 start en)" "end_waiting en (init_state g0 start en)"
proof -
  have ok: "grid_ok g0" using rf by (simp add: refreshed_def)
  have all: "set (all_nodes g0) = {p. in_grid g0 p}" by (rule set_all_nodes[OF ok])
  have g: "g_score (init_state g0 start en) =
             (\<lambda>p. if p = start then Some 0 else if in_grid g0 p then Some \<infinity> else None)"
    by (rule ext) (simp add: init_state_def map_of_const all)
  have fin: "\<And>p d. g_score (init_state g0 start en) p = Some (enat d) \<longleftrightarrow> p = start \<and> d = 0"
    by (auto simp: g zero_enat_def)
  have h: "open_set_hash (init_state g0 start en) = {start}"
    and o: "open_set (init_state g0 start en) = [(0, 0, start)]"
    and c: "came_from (init_state g0 start en) = Map.empty"
    and ce: "cells (init_state g0 start en) = g0"
    by (simp_all add: init_state_def pq_put_def)
  have "inv_grid g0 (init_state g0 start en)"
    unfolding inv_grid_def ce using ok by simp
  moreover have "inv_queue g0 (init_state g0 start en)"
    unfolding inv_queue_def h o using st by (auto simp: g node_of_def zero_enat_def split: if_splits)
  moreover have "inv_tree g0 start (init_state g0 start en)"
    unfolding inv_tree_def c using st fin by (simp add: g)
  moreover have "inv_closed g0 {} (init_state g0 start en)"
    unfolding inv_closed_def h using fin by simp
  moreover have "reached (init_state g0 start en) = {start}"
    unfolding reached_def using fin by auto
  then have "inv_bound (init_state g0 start en)"
    unfolding inv_bound_def using fin by simp
  ultimately show "search_inv g0 start {} (init_state g0 start en)"
    using rf by (simp add: search_inv_def)
  show "end_waiting en (init_state g0 start en)"
    unfolding end_waiting_def h using fin by simp
qed

subsection \<open>Equality and hashing\<close>







lemma route_snoc:
  "route g xs \<Longrightarrow> step_ok g (last xs) b \<Longrightarrow> route g (xs @ [b])"
proof (induction g xs rule: route.induct)
  case (1 g)
  then show ?case by simp
next
  case (2 g p)
  then show ?case by (simp add: step_ok_def)
next
  case (3 g p q ps)
  then show ?case by simp
qed

lemma route_hd_last:
  "route g xs \<Longrightarrow> xs \<noteq> []"
  by (cases xs) auto

text \<open>Every cell with a finite score heads a chain of predecessors that ends at
  \<open>start\<close>; read backwards the chain is a route, and the scores fall along it.\<close>

lemma chain_exists:
  assumes it: "inv_tree g0 start s"
  shows "g_score s p = Some (enat d) \<Longrightarrow>
     \<exists>ps. is_chain (came_from s) (p # ps) \<and> last (p # ps) = start \<and> route g0 (rev (p # ps)) \<and>
          length ps \<le> d \<and>
          (\<forall>q \<in> set ps. q \<noteq> p \<and> in_grid g0 q \<and> (q \<noteq> start \<longrightarrow> \<not> is_barrier (cell g0 q)))"
proof (induction d arbitrary: p rule: less_induct)
  case (less d)
  show ?case
  proof (cases "came_from s p")
    case None
    then have "p = start" using it less.prems unfolding inv_tree_def by blast
    moreover have "in_grid g0 start" using it by (simp add: inv_tree_def)
    ultimately show ?thesis using None by (intro exI[of _ "[]"]) simp
  next
    case (Some q)
    with it obtain d' dq where q: "in_grid g0 q" "step_ok g0 q p"
      "g_score s p = Some (enat d')" "g_score s q = Some (enat dq)" "dq < d'"
      unfolding inv_tree_def by blast
    have dd: "d' = d" using q(3) less.prems by simp
    from less.IH[of dq q] q(4,5) dd obtain qs where qs:
      "is_chain (came_from s) (q # qs)" "last (q # qs) = start" "route g0 (rev (q # qs))"
      "length qs \<le> dq"
      "\<forall>r \<in> set qs. r \<noteq> q \<and> in_grid g0 r \<and> (r \<noteq> start \<longrightarrow> \<not> is_barrier (cell g0 r))"
      by auto
    have lq: "last (rev (q # qs)) = q" by simp
    have r: "route g0 (rev (p # q # qs))"
      using route_snoc[OF qs(3)] q(2) lq by simp
    have pq: "p \<noteq> q" using q(2) by (auto simp: step_ok_def)
    text \<open>The scores along the chain stay below that of \<open>p\<close>, so \<open>p\<close> is not on it.\<close>
    have below: "\<And>r. r \<in> set (q # qs) \<Longrightarrow> \<exists>dr. g_score s r = Some (enat dr) \<and> dr < d"
    proof -
      fix r assume "r \<in> set (q # qs)"
      then show "\<exists>dr. g_score s r = Some (enat dr) \<and> dr < d"
        using qs(1) q(4,5) dd
      proof (induction qs arbitrary: q dq)
        case Nil
        then show ?case by simp
      next
        case (Cons a as)
        from Cons.prems(2) have cf: "came_from s q = Some a" and ch: "is_chain (came_from s) (a # as)"
          by simp_all
        from it cf obtain e ea where "g_score s q = Some (enat e)" "g_score s a = Some (enat ea)" "ea < e"
          unfolding inv_tree_def by blast
        then have a: "g_score s a = Some (enat ea)" "ea < d'" using Cons.prems(3,4) by simp_all
        show ?case
        proof (cases "r = q")
          case True
          then show ?thesis using Cons.prems(3,4,5) by simp
        next
          case False
          then have "r \<in> set (a # as)" using Cons.prems(1) by simp
          from Cons.IH[OF this ch a Cons.prems(5)] show ?thesis .
        qed
      qed
    qed
    have notp: "p \<notin> set (q # qs)"
    proof
      assume "p \<in> set (q # qs)"
      from below[OF this] less.prems show False by simp
    qed
    have qnb: "q \<noteq> start \<longrightarrow> \<not> is_barrier (cell g0 q)"
    proof
      assume "q \<noteq> start"
      then obtain r where "came_from s q = Some r" using it q(4) unfolding inv_tree_def by blast
      with it have "step_ok g0 r q" unfolding inv_tree_def by blast
      then show "\<not> is_barrier (cell g0 q)" by (simp add: step_ok_def)
    qed
    have "is_chain (came_from s) (p # q # qs)" using Some qs(1) by simp
    moreover have "last (p # q # qs) = start" using qs(2) by simp
    moreover have "length (q # qs) \<le> d" using qs(4) q(5) dd by simp
    moreover have "\<forall>r \<in> set (q # qs). r \<noteq> p \<and> in_grid g0 r \<and> (r \<noteq> start \<longrightarrow> \<not> is_barrier (cell g0 r))"
      using notp qs(5) q(1) qnb by auto
    ultimately show ?thesis using r by blast
  qed
qed

text \<open>What \<open>reconstruct_path\<close> returns on a chain: it ends, counts the cells of the chain
  and paints every cell of the chain but the first.\<close>

lemma reconstruct_loop_chain:
  "is_chain cf (p # ps) \<Longrightarrow>
   reconstruct_loop cf p n g =
     Some (n + int (length ps), fold (\<lambda>q g. set_cell g q (make_path (cell g q))) ps g)"
proof (induction ps arbitrary: p n g)
  case Nil
  then show ?case by (subst reconstruct_loop.simps) simp
next
  case (Cons q qs)
  then have cf: "cf p = Some q" and ch: "is_chain cf (q # qs)" by simp_all
  show ?case
    by (subst reconstruct_loop.simps) (simp add: cf Cons.IH[OF ch])
qed

lemma fold_mark:
  assumes "grid_ok g" "\<forall>q \<in> set ps. in_grid g q"
  shows "grid_ok (fold (\<lambda>q g. set_cell g q (make_path (cell g q))) ps g) \<and>
     length (fold (\<lambda>q g. set_cell g q (make_path (cell g q))) ps g) = length g \<and>
     (\<forall>q. in_grid g q \<longrightarrow>
        cell (fold (\<lambda>q g. set_cell g q (make_path (cell g q))) ps g) q =
          (if q \<in> set ps then make_path (cell g q) else cell g q))"
  using assms
proof (induction ps arbitrary: g)
  case Nil
  then show ?case by simp
next
  case (Cons a ps)
  let ?g1 = "set_cell g a (make_path (cell g a))"
  have a: "in_grid g a" using Cons.prems(2) by simp
  have ok1: "grid_ok ?g1"
    using grid_ok_cell[OF Cons.prems(1) a]
    by (intro grid_ok_set_cell[OF Cons.prems(1) a]) (simp_all add: make_path_def)
  have c1: "\<And>q. in_grid g q \<Longrightarrow> cell ?g1 q = (if q = a then make_path (cell g a) else cell g q)"
    using cell_set_cell[OF Cons.prems(1) a] by simp
  have ps1: "\<forall>q \<in> set ps. in_grid ?g1 q" using Cons.prems(2) by simp
  note IH = Cons.IH[OF ok1 ps1]
  have mm: "\<And>n. make_path (make_path n) = make_path n" by (simp add: make_path_def)
  have "\<forall>q. in_grid g q \<longrightarrow>
        cell (fold (\<lambda>q g. set_cell g q (make_path (cell g q))) (a # ps) g) q =
          (if q \<in> set (a # ps) then make_path (cell g q) else cell g q)"
  proof (intro allI impI)
    fix q assume q: "in_grid g q"
    then have "in_grid ?g1 q" by simp
    then have "cell (fold (\<lambda>q g. set_cell g q (make_path (cell g q))) ps ?g1) q =
          (if q \<in> set ps then make_path (cell ?g1 q) else cell ?g1 q)"
      using IH by blast
    then show "cell (fold (\<lambda>q g. set_cell g q (make_path (cell g q))) (a # ps) g) q =
          (if q \<in> set (a # ps) then make_path (cell g q) else cell g q)"
      using c1[OF q] by (cases "q = a"; cases "q \<in> set ps") (simp_all add: mm)
  qed
  moreover have "grid_ok (fold (\<lambda>q g. set_cell g q (make_path (cell g q))) (a # ps) g)"
    using IH by simp
  moreover have "length (fold (\<lambda>q g. set_cell g q (make_path (cell g q))) (a # ps) g) = length g"
    using IH by simp
  ultimately show ?case by blast
qed

text \<open>
  The two ways \<open>algorithm\<close> ends on a refreshed grid. Either the queue runs empty and
  the result is \<open>(False, 0)\<close>, or \<open>end\<close> is taken from the queue, the walk back along
  \<open>came_from\<close> ends at \<open>start\<close>, and the result is \<open>True\<close> with the number of cells of
  the walk. \<open>I\<close> is any further property that every pass of the loop keeps.
\<close>

lemma algorithm_outcome:
  assumes rf: "refreshed g" and st: "in_grid g start" and I0: "I (init_state g start en)"
    and step: "\<And>t t2. search_inv g start {} t \<Longrightarrow> end_waiting en t \<Longrightarrow> I t \<Longrightarrow>
       open_set t \<noteq> [] \<Longrightarrow> next_node t \<noteq> en \<Longrightarrow>
       expand start en (next_node t) (pop_state t) = Inr t2 \<Longrightarrow> I t2"
  shows "(\<exists>sl. search_inv g start {} sl \<and> end_waiting en sl \<and> I sl \<and> open_set sl = [] \<and>
            search_loop start en (init_state g start en) = Some (Inr (False, sl)) \<and>
            algorithm g start en = Some (Inr (False, 0, cells sl))) \<or>
         (\<exists>sl ps. search_inv g start {} sl \<and> I sl \<and> open_set sl \<noteq> [] \<and> next_node sl = en \<and>
            search_loop start en (init_state g start en) = Some (Inr (True, pop_state sl)) \<and>
            is_chain (came_from sl) (en # ps) \<and> last (en # ps) = start \<and>
            route g (rev (en # ps)) \<and>
            (\<exists>d. g_score sl en = Some (enat d) \<and> length ps \<le> d) \<and>
            (\<forall>q \<in> set ps. q \<noteq> en \<and> in_grid g q \<and> (q \<noteq> start \<longrightarrow> \<not> is_barrier (cell g q))) \<and>
            (en \<noteq> start \<longrightarrow> \<not> is_barrier (cell g en)) \<and> in_grid g en \<and>
            reconstruct_path (came_from (pop_state sl)) en (cells (pop_state sl)) =
              Some (1 + int (length ps),
                    fold (\<lambda>q g. set_cell g q (make_path (cell g q))) ps (cells sl)) \<and>
            algorithm g start en =
              Some (Inr (True, 1 + int (length ps),
                (let g1 = fold (\<lambda>q g. set_cell g q (make_path (cell g q))) ps (cells sl);
                     g2 = set_cell g1 en (make_end (cell g1 en))
                 in set_cell g2 start (make_start (cell g2 start))))))"
proof -
  note i = init_inv[OF rf st, of en]
  have "\<exists>sl. search_inv g start {} sl \<and> end_waiting en sl \<and> I sl \<and>
           (if open_set sl = [] then search_loop start en (init_state g start en) = Some (Inr (False, sl))
            else next_node sl = en \<and>
                 search_loop start en (init_state g start en) = Some (Inr (True, pop_state sl)))"
    using i(1) i(2) I0 by (rule search_loop_total) (rule step)
  then obtain sl where sl: "search_inv g start {} sl" "end_waiting en sl" "I sl"
    "if open_set sl = [] then search_loop start en (init_state g start en) = Some (Inr (False, sl))
     else next_node sl = en \<and>
          search_loop start en (init_state g start en) = Some (Inr (True, pop_state sl))"
    by blast
  show ?thesis
  proof (cases "open_set sl = []")
    case True
    then have l: "search_loop start en (init_state g start en) = Some (Inr (False, sl))"
      using sl(4) by simp
    then have "algorithm g start en = Some (Inr (False, 0, cells sl))"
      by (simp add: algorithm_def)
    with sl(1,2,3) True l show ?thesis
      by (intro disjI1 exI[of _ sl]) simp
  next
    case False
    then have n: "next_node sl = en"
      and l: "search_loop start en (init_state g start en) = Some (Inr (True, pop_state sl))"
      using sl(4) by simp_all
    note p = pop_inv[OF sl(1) False]
    obtain d where d: "g_score sl en = Some (enat d)" using p(3) n by auto
    have eg: "in_grid g en" using p(2) n by simp
    have it: "inv_tree g start sl" using sl(1) by (simp add: search_inv_def)
    from chain_exists[OF it d] obtain ps where ps:
      "is_chain (came_from sl) (en # ps)" "last (en # ps) = start" "route g (rev (en # ps))"
      "length ps \<le> d"
      "\<forall>q \<in> set ps. q \<noteq> en \<and> in_grid g q \<and> (q \<noteq> start \<longrightarrow> \<not> is_barrier (cell g q))"
      by blast
    have enb: "en \<noteq> start \<longrightarrow> \<not> is_barrier (cell g en)"
    proof
      assume "en \<noteq> start"
      then obtain r where "came_from sl en = Some r" using it d unfolding inv_tree_def by blast
      with it have "step_ok g r en" unfolding inv_tree_def by blast
      then show "\<not> is_barrier (cell g en)" by (simp add: step_ok_def)
    qed
    have cf: "came_from (pop_state sl) = came_from sl" and ce: "cells (pop_state sl) = cells sl"
      by (simp_all add: pop_state_def)
    have r: "reconstruct_path (came_from (pop_state sl)) en (cells (pop_state sl)) =
              Some (1 + int (length ps),
                    fold (\<lambda>q g. set_cell g q (make_path (cell g q))) ps (cells sl))"
      unfolding cf ce reconstruct_path_def by (rule reconstruct_loop_chain[OF ps(1)])
    have a: "algorithm g start en =
              Some (Inr (True, 1 + int (length ps),
                (let g1 = fold (\<lambda>q g. set_cell g q (make_path (cell g q))) ps (cells sl);
                     g2 = set_cell g1 en (make_end (cell g1 en))
                 in set_cell g2 start (make_start (cell g2 start)))))"
      using r by (simp add: algorithm_def l Let_def)
    have dd: "\<exists>d. g_score sl en = Some (enat d) \<and> length ps \<le> d"
      using d ps(4) by blast
    show ?thesis
      by (intro disjI2 exI[of _ sl] exI[of _ ps] conjI)
         (fact sl(1) sl(3) False n l ps(1) ps(2) ps(3) dd ps(5) enb eg r a)+
  qed
qed

lemma enclosed_no_route:
  assumes "open_neighbors g start = []" "start \<noteq> en"
  shows "\<not> (\<exists>ps. route g ps \<and> hd ps = start \<and> last ps = en)"
proof
  assume "\<exists>ps. route g ps \<and> hd ps = start \<and> last ps = en"
  then obtain ps where ps: "route g ps" "hd ps = start" "last ps = en" by blast
  show False
  proof (cases ps)
    case Nil
    then show ?thesis using ps(1) by simp
  next
    case (Cons p qs)
    show ?thesis
    proof (cases qs)
      case Nil
      then show ?thesis using Cons ps(2,3) assms(2) by simp
    next
      case (Cons q rs)
      then have "step_ok g start q" using \<open>ps = p # qs\<close> ps(1,2) by simp
      then show ?thesis using assms(1) by (simp add: step_ok_iff)
    qed
  qed
qed

text \<open>The cells of the grid that a successful search leaves behind.\<close>

lemma finish_cells:
  assumes ok: "grid_ok c" and ps: "\<forall>q \<in> set ps. in_grid c q" and en: "in_grid c en"
    and st: "in_grid c start" and p: "in_grid c p"
  shows "cell (let g1 = fold (\<lambda>q g. set_cell g q (make_path (cell g q))) ps c;
                   g2 = set_cell g1 en (make_end (cell g1 en))
               in set_cell g2 start (make_start (cell g2 start))) p =
         (cell c p)\<lparr>color := (if p = start then Color_START else if p = en then Color_END
                               else if p \<in> set ps then Color_PATH else color (cell c p))\<rparr>"
proof -
  define g1 where "g1 = fold (\<lambda>q g. set_cell g q (make_path (cell g q))) ps c"
  define g2 where "g2 = set_cell g1 en (make_end (cell g1 en))"
  from fold_mark[OF ok ps] have ok1: "grid_ok g1" and len1: "length g1 = length c"
    and c1: "\<And>q. in_grid c q \<Longrightarrow>
               cell g1 q = (if q \<in> set ps then make_path (cell c q) else cell c q)"
    unfolding g1_def by blast+
  have in1: "\<And>q. in_grid g1 q = in_grid c q" using len1 by (simp add: in_grid_def)
  have en1: "in_grid g1 en" and st1: "in_grid g1 start" and p1: "in_grid g1 p"
    using en st p in1 by simp_all
  have ok2: "grid_ok g2"
    unfolding g2_def using grid_ok_cell[OF ok1 en1]
    by (intro grid_ok_set_cell[OF ok1 en1]) (simp_all add: make_end_def)
  have c2: "\<And>q. in_grid c q \<Longrightarrow> cell g2 q = (if q = en then make_end (cell g1 en) else cell g1 q)"
    unfolding g2_def using cell_set_cell[OF ok1 en1] in1 by simp
  have st2: "in_grid g2 start" and p2: "in_grid g2 p"
    unfolding g2_def using st1 p1 by simp_all
  have c3: "cell (set_cell g2 start (make_start (cell g2 start))) p =
              (if p = start then make_start (cell g2 start) else cell g2 p)"
    by (rule cell_set_cell[OF ok2 st2 p2])
  have r: "(if p = start then make_start (cell g2 start) else cell g2 p) =
         (cell c p)\<lparr>color := (if p = start then Color_START else if p = en then Color_END
                               else if p \<in> set ps then Color_PATH else color (cell c p))\<rparr>"
    using c2[OF p] c2[OF st] c1[OF p] c1[OF en] c1[OF st]
    by (simp add: make_start_def make_end_def make_path_def)
  have "cell (set_cell g2 start (make_start (cell g2 start))) p =
         (cell c p)\<lparr>color := (if p = start then Color_START else if p = en then Color_END
                               else if p \<in> set ps then Color_PATH else color (cell c p))\<rparr>"
    using c3 r by (rule trans)
  then show ?thesis unfolding g1_def g2_def Let_def .
qed

lemma inv_grid_barrier:
  assumes "inv_grid g s" "in_grid g p"
  shows "is_barrier (cell (cells s) p) \<longleftrightarrow> is_barrier (cell g p)"
    "is_barrier (cell g p) \<Longrightarrow> cell (cells s) p = cell g p"
proof -
  have c: "cell (cells s) p = (cell g p)\<lparr>color := color (cell (cells s) p)\<rparr>"
    and b: "is_barrier (cell g p) \<longrightarrow> color (cell (cells s) p) = color (cell g p)"
    and n: "\<not> is_barrier (cell g p) \<longrightarrow> \<not> is_barrier (cell (cells s) p)"
    using assms unfolding inv_grid_def by blast+
  show "is_barrier (cell (cells s) p) \<longleftrightarrow> is_barrier (cell g p)"
    using b n by (auto simp: is_barrier_def)
  assume "is_barrier (cell g p)"
  then have "color (cell (cells s) p) = color (cell g p)" using b by simp
  then show "cell (cells s) p = cell g p" using c by simp
qed

text \<open>
  C10. On every refreshed grid the search ends and returns: the loop reaches one of its
  two exits, the walk back along \<open>came_from\<close> ends, and nothing raises.
\<close>

theorem search_terminates:
  assumes "refreshed g" "in_grid g start" "in_grid g en"
  shows "\<exists>found s n g'. search_loop start en (init_state g start en) = Some (Inr (found, s)) \<and>
           algorithm g start en = Some (Inr (found, n, g'))"
  using algorithm_outcome[OF assms(1,2), of "\<lambda>_. True" en] by auto

text \<open>
  C2. When no route leads from start to end, the loop runs until the queue is empty and
  the search returns \<open>(False, 0)\<close>.
\<close>

theorem no_route_returns_false:
  assumes "refreshed g" "in_grid g start" "in_grid g en"
    "\<not> (\<exists>ps. route g ps \<and> hd ps = start \<and> last ps = en)"
  shows "\<exists>s. search_loop start en (init_state g start en) = Some (Inr (False, s)) \<and>
           open_set s = [] \<and> algorithm g start en = Some (Inr (False, 0, cells s))"
proof -
  from algorithm_outcome[OF assms(1,2), of "\<lambda>_. True" en]
  consider (exhausted) sl where "open_set sl = []"
      "search_loop start en (init_state g start en) = Some (Inr (False, sl))"
      "algorithm g start en = Some (Inr (False, 0, cells sl))"
    | (found) ps where "last (en # ps) = start" "route g (rev (en # ps))"
    by auto
  then show ?thesis
  proof cases
    case exhausted
    then show ?thesis by blast
  next
    case found
    have "hd (rev (en # ps)) = last (en # ps)" by (rule hd_rev)
    then have "hd (rev (en # ps)) = start" using found(1) by simp
    moreover have "last (rev (en # ps)) = en" by simp
    ultimately show ?thesis using assms(4) found(2) by blast
  qed
qed

text \<open>
  C9. A search on a refreshed grid whose start cell is not a barrier (it carries the
  start colour when \<open>main\<close> calls the search) leaves every barrier cell as it was, in the
  state in which the loop ends and in the grid the search leaves behind, and the cells
  that are barriers afterwards are the cells that were barriers before.
\<close>

theorem barrier_layout_preserved:
  assumes "refreshed g" "in_grid g start" "in_grid g en" "\<not> is_barrier (cell g start)"
  shows "\<exists>found s n g'.
           search_loop start en (init_state g start en) = Some (Inr (found, s)) \<and>
           algorithm g start en = Some (Inr (found, n, g')) \<and>
           (\<forall>p. in_grid g p \<longrightarrow>
              (is_barrier (cell g p) \<longrightarrow> cell (cells s) p = cell g p \<and> cell g' p = cell g p) \<and>
              (is_barrier (cell (cells s) p) \<longleftrightarrow> is_barrier (cell g p)) \<and>
              (is_barrier (cell g' p) \<longleftrightarrow> is_barrier (cell g p)))"
proof -
  from algorithm_outcome[OF assms(1,2), of "\<lambda>_. True" en]
  consider (exhausted) sl where "search_inv g start {} sl"
      "search_loop start en (init_state g start en) = Some (Inr (False, sl))"
      "algorithm g start en = Some (Inr (False, 0, cells sl))"
    | (found) sl ps where "search_inv g start {} sl"
      "search_loop start en (init_state g start en) = Some (Inr (True, pop_state sl))"
      "\<forall>q \<in> set ps. q \<noteq> en \<and> in_grid g q \<and> (q \<noteq> start \<longrightarrow> \<not> is_barrier (cell g q))"
      "en \<noteq> start \<longrightarrow> \<not> is_barrier (cell g en)"
      "algorithm g start en =
              Some (Inr (True, 1 + int (length ps),
                (let g1 = fold (\<lambda>q g. set_cell g q (make_path (cell g q))) ps (cells sl);
                     g2 = set_cell g1 en (make_end (cell g1 en))
                 in set_cell g2 start (make_start (cell g2 start)))))"
    by auto
  then show ?thesis
  proof cases
    case exhausted
    have ig: "inv_grid g sl" using exhausted(1) by (simp add: search_inv_def)
    have "\<forall>p. in_grid g p \<longrightarrow>
              (is_barrier (cell g p) \<longrightarrow> cell (cells sl) p = cell g p \<and> cell (cells sl) p = cell g p) \<and>
              (is_barrier (cell (cells sl) p) \<longleftrightarrow> is_barrier (cell g p)) \<and>
              (is_barrier (cell (cells sl) p) \<longleftrightarrow> is_barrier (cell g p))"
      using inv_grid_barrier[OF ig] by blast
    then show ?thesis using exhausted(2,3) by blast
  next
    case found
    let ?g' = "let g1 = fold (\<lambda>q g. set_cell g q (make_path (cell g q))) ps (cells sl);
                     g2 = set_cell g1 en (make_end (cell g1 en))
                 in set_cell g2 start (make_start (cell g2 start))"
    have ig: "inv_grid g sl" using found(1) by (simp add: search_inv_def)
    have ok: "grid_ok (cells sl)" and len: "length (cells sl) = length g"
      using ig by (simp_all add: inv_grid_def)
    have in': "\<And>q. in_grid (cells sl) q = in_grid g q" using len by (simp add: in_grid_def)
    have ps': "\<forall>q \<in> set ps. in_grid (cells sl) q" using found(3) in' by simp
    have ce: "cells (pop_state sl) = cells sl" by (simp add: pop_state_def)
    have "\<forall>p. in_grid g p \<longrightarrow>
              (is_barrier (cell g p) \<longrightarrow> cell (cells (pop_state sl)) p = cell g p \<and> cell ?g' p = cell g p) \<and>
              (is_barrier (cell (cells (pop_state sl)) p) \<longleftrightarrow> is_barrier (cell g p)) \<and>
              (is_barrier (cell ?g' p) \<longleftrightarrow> is_barrier (cell g p))"
    proof (intro allI impI)
      fix p assume p: "in_grid g p"
      have f: "cell ?g' p =
         (cell (cells sl) p)\<lparr>color := (if p = start then Color_START else if p = en then Color_END
                               else if p \<in> set ps then Color_PATH else color (cell (cells sl) p))\<rparr>"
        using finish_cells[OF ok ps', of en start p] assms(2,3) p in' by simp
      note b = inv_grid_barrier[OF ig p]
      show "(is_barrier (cell g p) \<longrightarrow> cell (cells (pop_state sl)) p = cell g p \<and> cell ?g' p = cell g p) \<and>
              (is_barrier (cell (cells (pop_state sl)) p) \<longleftrightarrow> is_barrier (cell g p)) \<and>
              (is_barrier (cell ?g' p) \<longleftrightarrow> is_barrier (cell g p))"
      proof (cases "is_barrier (cell g p)")
        case True
        then have "p \<noteq> start" "p \<noteq> en" "p \<notin> set ps"
          using assms(4) found(3,4) by auto
        then have "cell ?g' p = cell (cells sl) p" unfolding f by simp
        then show ?thesis using True b ce by simp
      next
        case False
        then have "\<not> is_barrier (cell (cells sl) p)" using b(1) by simp
        then have "\<not> is_barrier (cell ?g' p)"
          unfolding f by (simp add: is_barrier_def Color_defs)
        then show ?thesis using False b(1) ce by simp
      qed
    qed
    then show ?thesis using found(2,5) by blast
  qed
qed

theorem search_terminates_witness:
  "refreshed detour \<and> in_grid detour (0, 0) \<and> in_grid detour (0, 1) \<and>
   (\<exists>found s n g'. search_loop (0, 0) (0, 1) (init_state detour (0, 0) (0, 1)) = Some (Inr (found, s)) \<and>
      algorithm detour (0, 0) (0, 1) = Some (Inr (found, n, g')))"
proof -
  have r: "refreshed detour" by code_simp
  have a: "in_grid detour (0, 0)" by code_simp
  have b: "in_grid detour (0, 1)" by code_simp
  show ?thesis using search_terminates[OF r a b] r a b by blast
qed

theorem no_route_returns_false_witness:
  "refreshed walled_start \<and> in_grid walled_start (0, 0) \<and> in_grid walled_start (2, 2) \<and>
   (\<exists>s. search_loop (0, 0) (2, 2) (init_state walled_start (0, 0) (2, 2)) = Some (Inr (False, s)) \<and>
      open_set s = [] \<and> algorithm walled_start (0, 0) (2, 2) = Some (Inr (False, 0, cells s)))"
proof -
  have r: "refreshed walled_start" by code_simp
  have a: "in_grid walled_start (0, 0)" by code_simp
  have b: "in_grid walled_start (2, 2)" by code_simp
  have n: "open_neighbors walled_start (0, 0) = []" by code_simp
  have "(0, 0) \<noteq> ((2, 2) :: pos)" by simp
  then have nr: "\<not> (\<exists>ps. route walled_start ps \<and> hd ps = (0, 0) \<and> last ps = (2, 2))"
    by (rule enclosed_no_route[OF n])
  show ?thesis using no_route_returns_false[OF r a b nr] r a b by blast
qed

theorem barrier_layout_preserved_witness:
  "refreshed detour \<and> in_grid detour (0, 0) \<and> in_grid detour (0, 1) \<and>
   \<not> is_barrier (cell detour (0, 0)) \<and> is_barrier (cell detour (1, 1)) \<and>
   (\<exists>found n g'. algorithm detour (0, 0) (0, 1) = Some (Inr (found, n, g')) \<and>
      cell g' (1, 1) = cell detour (1, 1) \<and> \<not> is_barrier (cell g' (1, 0)))"
proof -
  have r: "refreshed detour" by code_simp
  have a: "in_grid detour (0, 0)" by code_simp
  have b: "in_grid detour (0, 1)" by code_simp
  have c: "in_grid detour (1, 1)" by code_simp
  have d: "in_grid detour (1, 0)" by code_simp
  have s: "\<not> is_barrier (cell detour (0, 0))" by code_simp
  have w: "is_barrier (cell detour (1, 1))" by code_simp
  have v: "\<not> is_barrier (cell detour (1, 0))" by code_simp
  from barrier_layout_preserved[OF r a b s] obtain found st n g' where
    all: "search_loop (0, 0) (0, 1) (init_state detour (0, 0) (0, 1)) = Some (Inr (found, st)) \<and>
          algorithm detour (0, 0) (0, 1) = Some (Inr (found, n, g')) \<and>
          (\<forall>p. in_grid detour p \<longrightarrow>
              (is_barrier (cell detour p) \<longrightarrow> cell (cells st) p = cell detour p \<and> cell g' p = cell detour p) \<and>
              (is_barrier (cell (cells st) p) \<longleftrightarrow> is_barrier (cell detour p)) \<and>
              (is_barrier (cell g' p) \<longleftrightarrow> is_barrier (cell detour p)))"
    by (elim exE)
  have g': "algorithm detour (0, 0) (0, 1) = Some (Inr (found, n, g'))" using all by simp
  have l: "\<forall>p. in_grid detour p \<longrightarrow>
              (is_barrier (cell detour p) \<longrightarrow> cell (cells st) p = cell detour p \<and> cell g' p = cell detour p) \<and>
              (is_barrier (cell (cells st) p) \<longleftrightarrow> is_barrier (cell detour p)) \<and>
              (is_barrier (cell g' p) \<longleftrightarrow> is_barrier (cell detour p))"
    using all by (elim conjE)
  have "cell g' (1, 1) = cell detour (1, 1)" using l c w by blast
  moreover have "\<not> is_barrier (cell g' (1, 0))" using l d v by blast
  ultimately show ?thesis using g' r a b s w by blast
qed

text \<open>
  C4 (as stated). On \<open>detour\<close>, where end lies next to start, the loop ends with the start
  cell still in the start colour, and \<open>reconstruct_path\<close> returns a grid in which the
  start cell has the colour of a path cell.
\<close>

theorem reconstruct_marks_start_counterexample:
  "map_option (map_sum id fst) (search_loop (0, 0) (0, 1) (init_state detour (0, 0) (0, 1))) =
     Some (Inr True) \<and>
   is_start (cell (cells detour_exit) (0, 0)) \<and>
   map_option fst (reconstruct_path (came_from detour_exit) (0, 1) (cells detour_exit)) = Some 2 \<and>
   color (cell detour_marked (0, 0)) = Color_PATH"
  by code_simp

text \<open>
  C4 (amended). On a successful search the reconstruction step assigns the role Path to
  every predecessor it visits on the walk back from end along \<open>came_from\<close> and to no
  other cell. The predecessors are the intermediate cells of the route and the start
  cell, where the walk stops; the end cell is not among them. \<open>algorithm\<close> then gives end
  and start their own colours back, so that in the grid the search leaves, of the cells
  of the route, the intermediate ones carry the role Path.
\<close>

theorem reconstruct_marks:
  assumes "refreshed g" "in_grid g start" "in_grid g en"
  shows "\<exists>found s. search_loop start en (init_state g start en) = Some (Inr (found, s)) \<and>
     (found \<longrightarrow> (\<exists>ps g1 g'.
        is_chain (came_from s) (en # ps) \<and> last (en # ps) = start \<and> en \<notin> set ps \<and>
        (start \<noteq> en \<longrightarrow> start \<in> set ps) \<and>
        reconstruct_path (came_from s) en (cells s) = Some (1 + int (length ps), g1) \<and>
        (\<forall>q. in_grid g q \<longrightarrow>
           cell g1 q = (if q \<in> set ps then make_path (cell (cells s) q) else cell (cells s) q)) \<and>
        algorithm g start en = Some (Inr (True, 1 + int (length ps), g')) \<and>
        (\<forall>q. in_grid g q \<longrightarrow>
           cell g' q = (cell (cells s) q)\<lparr>color :=
             (if q = start then Color_START else if q = en then Color_END
              else if q \<in> set ps then Color_PATH else color (cell (cells s) q))\<rparr>)))"
proof -
  from algorithm_outcome[OF assms(1,2), of "\<lambda>_. True" en]
  consider (exhausted) sl where
      "search_loop start en (init_state g start en) = Some (Inr (False, sl))"
    | (found) sl ps where "search_inv g start {} sl"
      "search_loop start en (init_state g start en) = Some (Inr (True, pop_state sl))"
      "is_chain (came_from sl) (en # ps)" "last (en # ps) = start"
      "\<forall>q \<in> set ps. q \<noteq> en \<and> in_grid g q \<and> (q \<noteq> start \<longrightarrow> \<not> is_barrier (cell g q))"
      "reconstruct_path (came_from (pop_state sl)) en (cells (pop_state sl)) =
              Some (1 + int (length ps),
                    fold (\<lambda>q g. set_cell g q (make_path (cell g q))) ps (cells sl))"
      "algorithm g start en =
              Some (Inr (True, 1 + int (length ps),
                (let g1 = fold (\<lambda>q g. set_cell g q (make_path (cell g q))) ps (cells sl);
                     g2 = set_cell g1 en (make_end (cell g1 en))
                 in set_cell g2 start (make_start (cell g2 start)))))"
    by auto
  then show ?thesis
  proof cases
    case exhausted
    then show ?thesis by blast
  next
    case found
    let ?s = "pop_state sl"
    let ?g1 = "fold (\<lambda>q g. set_cell g q (make_path (cell g q))) ps (cells sl)"
    let ?g' = "let g1 = fold (\<lambda>q g. set_cell g q (make_path (cell g q))) ps (cells sl);
                     g2 = set_cell g1 en (make_end (cell g1 en))
                 in set_cell g2 start (make_start (cell g2 start))"
    have cf: "came_from ?s = came_from sl" and ce: "cells ?s = cells sl"
      by (simp_all add: pop_state_def)
    have ig: "inv_grid g sl" using found(1) by (simp add: search_inv_def)
    have ok: "grid_ok (cells sl)" and len: "length (cells sl) = length g"
      using ig by (simp_all add: inv_grid_def)
    have in': "\<And>q. in_grid (cells sl) q = in_grid g q" using len by (simp add: in_grid_def)
    have ps': "\<forall>q \<in> set ps. in_grid (cells sl) q" using found(5) in' by simp
    have 1: "is_chain (came_from ?s) (en # ps)" using found(3) cf by simp
    have 2: "en \<notin> set ps" using found(5) by blast
    have 3: "start \<noteq> en \<longrightarrow> start \<in> set ps"
    proof
      assume ne: "start \<noteq> en"
      then have "ps \<noteq> []" using found(4) by auto
      then have "last ps = start" using found(4) by simp
      then show "start \<in> set ps" using \<open>ps \<noteq> []\<close> last_in_set by blast
    qed
    have 4: "\<forall>q. in_grid g q \<longrightarrow>
           cell ?g1 q = (if q \<in> set ps then make_path (cell (cells ?s) q) else cell (cells ?s) q)"
      using fold_mark[OF ok ps'] in' ce by simp
    have 5: "\<forall>q. in_grid g q \<longrightarrow>
           cell ?g' q = (cell (cells ?s) q)\<lparr>color :=
             (if q = start then Color_START else if q = en then Color_END
              else if q \<in> set ps then Color_PATH else color (cell (cells ?s) q))\<rparr>"
      using finish_cells[OF ok ps', of en start] assms(2,3) in' ce by simp
    have "\<exists>ps g1 g'.
        is_chain (came_from ?s) (en # ps) \<and> last (en # ps) = start \<and> en \<notin> set ps \<and>
        (start \<noteq> en \<longrightarrow> start \<in> set ps) \<and>
        reconstruct_path (came_from ?s) en (cells ?s) = Some (1 + int (length ps), g1) \<and>
        (\<forall>q. in_grid g q \<longrightarrow>
           cell g1 q = (if q \<in> set ps then make_path (cell (cells ?s) q) else cell (cells ?s) q)) \<and>
        algorithm g start en = Some (Inr (True, 1 + int (length ps), g')) \<and>
        (\<forall>q. in_grid g q \<longrightarrow>
           cell g' q = (cell (cells ?s) q)\<lparr>color :=
             (if q = start then Color_START else if q = en then Color_END
              else if q \<in> set ps then Color_PATH else color (cell (cells ?s) q))\<rparr>)"
      by (intro exI[of _ ps] exI[of _ ?g1] exI[of _ ?g'] conjI)
         (fact 1 found(4) 2 3 found(6) 4 found(7) 5)+
    then show ?thesis using found(2) by blast
  qed
qed

(*THMS-END*)

end
